theory Spec2Isabelle
  imports Complex_Main "HOL-Library.Multiset"
begin

section \<open>Dynamic values and errors\<close>

text \<open>
  Go's \<open>interface{}\<close> values, as far as the plugin runtime inspects them. Strings are
  byte sequences, as in Go (\<open>len\<close> counts bytes). \<open>float64\<close> is abstracted to
  \<open>real\<close>. A Go map is an association list read with \<open>map_of\<close>; the nil map
  and the empty map are both \<open>[]\<close>. \<open>VStruct\<close> lists the exported fields of a struct
  under their JSON names; \<open>VChan\<close> stands for a value that encoding/json cannot encode
  (a channel, a function).
\<close>

datatype gvalue =
    VNil
  | VBool bool
  | VInt int
  | VFloat real
  | VString string
  | VSlice "gvalue list"
  | VMap "(string \<times> gvalue) list"
  | VStruct "(string \<times> gvalue) list"
  | VChan

type_synonym cfgmap = "(string \<times> gvalue) list"

text \<open>Every \<open>fmt.Errorf\<close> and OS error of the modelled code is a constructor.\<close>

datatype error =
    ErrAlreadyRegistered string
  | ErrRequires string string
  | ErrExpectedString
  | ErrMinLength int
  | ErrMaxLength int
  | ErrExpectedNumber
  | ErrMinValue real
  | ErrMaxValue real
  | ErrExpectedBoolean
  | ErrInvalidOption
  | ErrExpectedArray
  | ErrInvalidOptionValue gvalue
  | ErrFieldRequired string
  | ErrField string error
  | ErrInvalidConfiguration error
  | ErrConvertToMap error
  | ErrSaveConfig error
  | ErrJSONMarshal
  | ErrJSONUnmarshal
  | ErrNoConfiguration string
  | ErrEmptyPluginID
  | ErrInvalidPluginID string
  | ErrMarshalConfig error
  | ErrWriteConfigFile error
  | ErrReadConfigFile error
  | ErrParseConfigJSON error
  | ErrDeleteConfigFile error
  | ErrNotExist
  | ErrPermission
  | ErrNoSpace
  | ErrInitialize string error
  | ErrStart string error
  | ErrStop string error
  | ErrStoppingPlugins "error list"
  | ErrPlugin string

section \<open>Configuration schema and validation (config.go)\<close>

record SelectOption =
  opt_Value :: string
  opt_Label :: string

record Validation =
  val_Min :: "real option"
  val_Max :: "real option"
  val_MinLen :: "int option"
  val_MaxLen :: "int option"
  val_Regex :: string

record ConfigField =
  fld_Name :: string
  fld_Type :: string
  fld_Label :: string
  fld_Description :: string
  fld_Default :: gvalue
  fld_Required :: bool
  fld_Options :: "SelectOption list"
  fld_Validation :: "Validation option"

record ConfigSchema =
  sch_Fields :: "ConfigField list"

text \<open>
  The conversion of an integer to \<open>float64\<close>: an integer of at most 53 bits is
  kept, a longer one is rounded to 53 significant bits, to the nearest and on a tie to
  the even one.
\<close>

fun bitlen :: "nat \<Rightarrow> nat" where
  "bitlen n = (if n = 0 then 0 else Suc (bitlen (n div 2)))"

definition round53 :: "nat \<Rightarrow> nat" where
  "round53 n =
     (if n < 2 ^ 53 then n
      else let e = bitlen n - 53; q = n div 2 ^ e; r = n mod 2 ^ e; half = 2 ^ (e - 1)
           in (if r > half \<or> (r = half \<and> odd q) then q + 1 else q) * 2 ^ e)"

definition float64_of_int :: "int \<Rightarrow> real" where
  "float64_of_int i = (if i < 0 then - real (round53 (nat (- i))) else real (round53 (nat i)))"

text \<open>\<open>toFloat64\<close>: the float, signed and unsigned kinds convert, nothing else does.\<close>

fun toFloat64 :: "gvalue \<Rightarrow> real option" where
  "toFloat64 (VFloat x) = Some x"
| "toFloat64 (VInt i) = Some (float64_of_int i)"
| "toFloat64 _ = None"

fun isValidOption :: "gvalue \<Rightarrow> SelectOption list \<Rightarrow> bool" where
  "isValidOption (VString str) options = (str \<in> set (map opt_Value options))"
| "isValidOption _ options = False"

text \<open>The loop of the multiselect case: the first element that is no option fails.\<close>

fun validateOptions :: "gvalue list \<Rightarrow> SelectOption list \<Rightarrow> error option" where
  "validateOptions [] options = None"
| "validateOptions (v # vs) options =
     (if \<not> isValidOption v options then Some (ErrInvalidOptionValue v)
      else validateOptions vs options)"

definition validateString :: "gvalue \<Rightarrow> ConfigField \<Rightarrow> error option" where
  "validateString v field =
     (case v of
        VString str \<Rightarrow>
          (case fld_Validation field of
             None \<Rightarrow> None
           | Some vl \<Rightarrow>
               (let maxCheck =
                      (case val_MaxLen vl of
                         Some mx \<Rightarrow> if int (length str) > mx then Some (ErrMaxLength mx) else None
                       | None \<Rightarrow> None)
                in case val_MinLen vl of
                     Some mn \<Rightarrow> if int (length str) < mn then Some (ErrMinLength mn) else maxCheck
                   | None \<Rightarrow> maxCheck))
      | _ \<Rightarrow> Some ErrExpectedString)"

definition validateNumber :: "gvalue \<Rightarrow> ConfigField \<Rightarrow> error option" where
  "validateNumber v field =
     (case toFloat64 v of
        None \<Rightarrow> Some ErrExpectedNumber
      | Some num \<Rightarrow>
          (case fld_Validation field of
             None \<Rightarrow> None
           | Some vl \<Rightarrow>
               (let maxCheck =
                      (case val_Max vl of
                         Some mx \<Rightarrow> if num > mx then Some (ErrMaxValue mx) else None
                       | None \<Rightarrow> None)
                in case val_Min vl of
                     Some mn \<Rightarrow> if num < mn then Some (ErrMinValue mn) else maxCheck
                   | None \<Rightarrow> maxCheck)))"

text \<open>\<open>validateField\<close>: the switch on the field's type; an unknown type checks nothing.\<close>

definition validateField :: "gvalue \<Rightarrow> ConfigField \<Rightarrow> error option" where
  "validateField v field =
     (if fld_Type field = ''string'' then validateString v field
      else if fld_Type field = ''number'' then validateNumber v field
      else if fld_Type field = ''boolean'' then
        (case v of VBool b \<Rightarrow> None | _ \<Rightarrow> Some ErrExpectedBoolean)
      else if fld_Type field = ''select'' then
        (if \<not> isValidOption v (fld_Options field) then Some ErrInvalidOption else None)
      else if fld_Type field = ''multiselect'' then
        (case v of VSlice vs \<Rightarrow> validateOptions vs (fld_Options field)
                 | _ \<Rightarrow> Some ErrExpectedArray)
      else None)"

text \<open>
  The number of code points of a UTF-8 string, the measure the specification names: every
  byte that is not a continuation byte (\<open>10xxxxxx\<close>) starts a code point.
\<close>

definition is_continuation :: "char \<Rightarrow> bool" where
  "is_continuation c = ((128::nat) \<le> of_char c \<and> (of_char c :: nat) < 192)"

definition code_points :: "string \<Rightarrow> nat" where
  "code_points s = length (filter (\<lambda>c. \<not> is_continuation c) s)"

text \<open>A string field with the given length bounds.\<close>

definition stringField :: "string \<Rightarrow> int option \<Rightarrow> int option \<Rightarrow> ConfigField" where
  "stringField name mn mx =
     \<lparr>fld_Name = name, fld_Type = ''string'', fld_Label = [], fld_Description = [],
      fld_Default = VNil, fld_Required = False, fld_Options = [],
      fld_Validation = Some \<lparr>val_Min = None, val_Max = None, val_MinLen = mn,
                              val_MaxLen = mx, val_Regex = []\<rparr>\<rparr>"

subsection \<open>JSON conversion\<close>

text \<open>
  \<open>json.Marshal\<close> fails exactly on a value that holds something it cannot encode.
  Decoding the encoding again into an \<open>interface{}\<close> gives every number as a
  \<open>float64\<close> and every struct as a map (\<open>json_norm\<close>).
\<close>

fun json_encodable :: "gvalue \<Rightarrow> bool" where
  "json_encodable VChan = False"
| "json_encodable (VSlice vs) = list_all json_encodable vs"
| "json_encodable (VMap m) = list_all (\<lambda>kv. json_encodable (snd kv)) m"
| "json_encodable (VStruct m) = list_all (\<lambda>kv. json_encodable (snd kv)) m"
| "json_encodable _ = True"

fun json_norm :: "gvalue \<Rightarrow> gvalue" where
  "json_norm (VInt i) = VFloat (float64_of_int i)"
| "json_norm (VSlice vs) = VSlice (map json_norm vs)"
| "json_norm (VMap m) = VMap (map (\<lambda>kv. (fst kv, json_norm (snd kv))) m)"
| "json_norm (VStruct m) = VMap (map (\<lambda>kv. (fst kv, json_norm (snd kv))) m)"
| "json_norm v = v"

text \<open>
  \<open>json.Marshal\<close> followed by \<open>json.Unmarshal\<close> into a
  \<open>map[string]interface{}\<close>: an object decodes to its map, \<open>null\<close> leaves the
  nil map, anything else is a decoding error.
\<close>

definition json_to_map :: "gvalue \<Rightarrow> error + cfgmap" where
  "json_to_map v =
     (if \<not> json_encodable v then Inl ErrJSONMarshal
      else case json_norm v of
             VMap m \<Rightarrow> Inr m
           | VNil \<Rightarrow> Inr []
           | _ \<Rightarrow> Inl ErrJSONUnmarshal)"

text \<open>\<open>toMap\<close>: a map is returned as it is, anything else goes through JSON.\<close>

definition toMap :: "gvalue \<Rightarrow> error + cfgmap" where
  "toMap v = (case v of VMap m \<Rightarrow> Inr m | _ \<Rightarrow> json_to_map v)"

subsection \<open>validateConfig\<close>

text \<open>
  The body of the loop over the schema's fields: \<open>Some e\<close> is \<open>return e\<close>,
  \<open>None\<close> goes on to the next field.
\<close>

definition checkField :: "cfgmap \<Rightarrow> ConfigField \<Rightarrow> error option" where
  "checkField configMap field =
     (let entry = map_of configMap (fld_Name field) in
      if fld_Required field \<and> (entry = None \<or> entry = Some VNil)
        then Some (ErrFieldRequired (fld_Name field))
      else case entry of
             None \<Rightarrow> None
           | Some v \<Rightarrow>
               (case validateField v field of
                  Some e \<Rightarrow> Some (ErrField (fld_Name field) e)
                | None \<Rightarrow> None))"

fun validateFields :: "cfgmap \<Rightarrow> ConfigField list \<Rightarrow> error option" where
  "validateFields configMap [] = None"
| "validateFields configMap (field # rest) =
     (case checkField configMap field of
        Some e \<Rightarrow> Some e
      | None \<Rightarrow> validateFields configMap rest)"

definition validateConfig :: "gvalue \<Rightarrow> ConfigSchema \<Rightarrow> error option" where
  "validateConfig config schema =
     (case config of
        VMap configMap \<Rightarrow> validateFields configMap (sch_Fields schema)
      | _ \<Rightarrow>
          (case json_to_map config of
             Inl e \<Rightarrow> Some e
           | Inr configMap \<Rightarrow> validateFields configMap (sch_Fields schema)))"

section \<open>Configuration storage\<close>

subsection \<open>The file system seen by the file-backed storage\<close>

text \<open>
  A path is kept as the unevaluated \<open>filepath.Join(base, name)\<close>. A file holds the JSON
  encoding of a value, or bytes that are no JSON. The helpers \<open>readFile\<close>,
  \<open>writeFile\<close> and \<open>removeFile\<close> are the \<open>default...\<close> functions; each call
  is recorded in \<open>fs_ops\<close>. A denied path makes the OS call fail at once.
  \<open>os.WriteFile\<close> opens the file truncating it and then writes: \<open>fs_short\<close>
  gives, for a path on which the write fails after the file was opened (a full disk),
  the bytes that reached the file, a proper prefix of the data and so no JSON.
\<close>

datatype path = Join string string

datatype filedata = JSONText gvalue | Garbage string

datatype fs_op = OpRead path | OpWrite path | OpRemove path

record filesystem =
  fs_files :: "path \<rightharpoonup> filedata"
  fs_denied :: "path \<Rightarrow> bool"
  fs_short :: "path \<rightharpoonup> string"
  fs_ops :: "fs_op list"

definition readFile :: "path \<Rightarrow> filesystem \<Rightarrow> (error + filedata) \<times> filesystem" where
  "readFile p fs =
     (let fs' = fs\<lparr>fs_ops := fs_ops fs @ [OpRead p]\<rparr> in
      case fs_files fs p of
        None \<Rightarrow> (Inl ErrNotExist, fs')
      | Some d \<Rightarrow> if fs_denied fs p then (Inl ErrPermission, fs') else (Inr d, fs'))"

definition writeFile :: "path \<Rightarrow> filedata \<Rightarrow> filesystem \<Rightarrow> error option \<times> filesystem" where
  "writeFile p d fs =
     (let fs' = fs\<lparr>fs_ops := fs_ops fs @ [OpWrite p]\<rparr> in
      if fs_denied fs p then (Some ErrPermission, fs')
      else case fs_short fs p of
             Some written \<Rightarrow>
               (Some ErrNoSpace, fs'\<lparr>fs_files := (fs_files fs)(p \<mapsto> Garbage written)\<rparr>)
           | None \<Rightarrow> (None, fs'\<lparr>fs_files := (fs_files fs)(p \<mapsto> d)\<rparr>))"

text \<open>\<open>defaultRemoveFile\<close>: a file that does not exist is no error.\<close>

definition removeFile :: "path \<Rightarrow> filesystem \<Rightarrow> error option \<times> filesystem" where
  "removeFile p fs =
     (let fs' = fs\<lparr>fs_ops := fs_ops fs @ [OpRemove p]\<rparr> in
      case fs_files fs p of
        None \<Rightarrow> (None, fs')
      | Some d \<Rightarrow>
          if fs_denied fs p then (Some ErrPermission, fs')
          else (None, fs'\<lparr>fs_files := (fs_files fs)(p := None)\<rparr>))"

subsection \<open>MemoryConfigStorage\<close>


definition Memory_Save :: "string \<Rightarrow> cfgmap \<Rightarrow> (string \<rightharpoonup> cfgmap) \<Rightarrow> (string \<rightharpoonup> cfgmap)" where
  "Memory_Save pluginID config configs = configs(pluginID \<mapsto> config)"

definition Memory_Delete :: "string \<Rightarrow> (string \<rightharpoonup> cfgmap) \<Rightarrow> (string \<rightharpoonup> cfgmap)" where
  "Memory_Delete pluginID configs = configs(pluginID := None)"

subsection \<open>JSONFileConfigStorage\<close>

fun strings_Contains :: "string \<Rightarrow> string \<Rightarrow> bool" where
  "strings_Contains [] substr = (substr = [])"
| "strings_Contains (c # cs) substr =
     (take (length substr) (c # cs) = substr \<or> strings_Contains cs substr)"

definition validatePluginID :: "string \<Rightarrow> error option" where
  "validatePluginID pluginID =
     (if pluginID = [] then Some ErrEmptyPluginID
      else if strings_Contains pluginID ''..'' \<or> strings_Contains pluginID ''/''
              \<or> strings_Contains pluginID [CHR 0x5C]
        then Some (ErrInvalidPluginID pluginID)
      else None)"

definition configPath :: "string \<Rightarrow> string \<Rightarrow> path" where
  "configPath basePath pluginID = Join basePath (pluginID @ ''.json'')"

text \<open>Decoding a file into a \<open>map[string]interface{}\<close>.\<close>

definition json_Unmarshal :: "filedata \<Rightarrow> error + cfgmap" where
  "json_Unmarshal d =
     (case d of
        JSONText (VMap m) \<Rightarrow> Inr m
      | JSONText VNil \<Rightarrow> Inr []
      | _ \<Rightarrow> Inl ErrJSONUnmarshal)"

definition json_MarshalIndent :: "cfgmap \<Rightarrow> error + filedata" where
  "json_MarshalIndent config =
     (if json_encodable (VMap config) then Inr (JSONText (json_norm (VMap config)))
      else Inl ErrJSONMarshal)"

definition JSONFile_Load ::
  "string \<Rightarrow> string \<Rightarrow> filesystem \<Rightarrow> (error + cfgmap) \<times> filesystem" where
  "JSONFile_Load basePath pluginID fs =
     (let filePath = configPath basePath pluginID in
      case readFile filePath fs of
        (Inl err, fs') \<Rightarrow> (Inl (ErrReadConfigFile err), fs')
      | (Inr data, fs') \<Rightarrow>
          (case json_Unmarshal data of
             Inl err \<Rightarrow> (Inl (ErrParseConfigJSON err), fs')
           | Inr config \<Rightarrow> (Inr config, fs')))"

definition JSONFile_Save ::
  "string \<Rightarrow> string \<Rightarrow> cfgmap \<Rightarrow> filesystem \<Rightarrow> error option \<times> filesystem" where
  "JSONFile_Save basePath pluginID config fs =
     (case validatePluginID pluginID of
        Some err \<Rightarrow> (Some err, fs)
      | None \<Rightarrow>
          (case json_MarshalIndent config of
             Inl err \<Rightarrow> (Some (ErrMarshalConfig err), fs)
           | Inr data \<Rightarrow>
               (let filePath = configPath basePath pluginID in
                case writeFile filePath data fs of
                  (Some err, fs') \<Rightarrow> (Some (ErrWriteConfigFile err), fs')
                | (None, fs') \<Rightarrow> (None, fs'))))"

definition JSONFile_Delete ::
  "string \<Rightarrow> string \<Rightarrow> filesystem \<Rightarrow> error option \<times> filesystem" where
  "JSONFile_Delete basePath pluginID fs =
     (let filePath = configPath basePath pluginID in
      case removeFile filePath fs of
        (Some err, fs') \<Rightarrow> (Some (ErrDeleteConfigFile err), fs')
      | (None, fs') \<Rightarrow> (None, fs'))"

subsection \<open>The ConfigStorage interface\<close>

text \<open>The two implementations of the interface, each with the state it works on.\<close>

datatype ConfigStorage =
    MemoryConfigStorage "string \<rightharpoonup> cfgmap"
  | JSONFileConfigStorage string filesystem


fun storage_Save :: "string \<Rightarrow> cfgmap \<Rightarrow> ConfigStorage \<Rightarrow> error option \<times> ConfigStorage" where
  "storage_Save pluginID config (MemoryConfigStorage configs) =
     (None, MemoryConfigStorage (Memory_Save pluginID config configs))"
| "storage_Save pluginID config (JSONFileConfigStorage basePath fs) =
     (case JSONFile_Save basePath pluginID config fs of
        (res, fs') \<Rightarrow> (res, JSONFileConfigStorage basePath fs'))"

fun storage_Delete :: "string \<Rightarrow> ConfigStorage \<Rightarrow> error option \<times> ConfigStorage" where
  "storage_Delete pluginID (MemoryConfigStorage configs) =
     (None, MemoryConfigStorage (Memory_Delete pluginID configs))"
| "storage_Delete pluginID (JSONFileConfigStorage basePath fs) =
     (case JSONFile_Delete basePath pluginID fs of
        (res, fs') \<Rightarrow> (res, JSONFileConfigStorage basePath fs'))"


section \<open>ConfigManager (config.go)\<close>

record ConfigManager =
  cm_storage :: ConfigStorage
  cm_schemas :: "string \<rightharpoonup> ConfigSchema"
  cm_cache :: "string \<rightharpoonup> gvalue"

definition NewConfigManagerWithStorage :: "ConfigStorage \<Rightarrow> ConfigManager" where
  "NewConfigManagerWithStorage st =
     \<lparr>cm_storage = st, cm_schemas = Map.empty, cm_cache = Map.empty\<rparr>"

definition RegisterSchema :: "string \<Rightarrow> ConfigSchema \<Rightarrow> ConfigManager \<Rightarrow> ConfigManager" where
  "RegisterSchema pluginID schema cm = cm\<lparr>cm_schemas := (cm_schemas cm)(pluginID \<mapsto> schema)\<rparr>"

definition SetConfig :: "string \<Rightarrow> gvalue \<Rightarrow> ConfigManager \<Rightarrow> error option \<times> ConfigManager" where
  "SetConfig pluginID config cm =
     (case (case cm_schemas cm pluginID of
              Some schema \<Rightarrow> validateConfig config schema
            | None \<Rightarrow> None) of
        Some err \<Rightarrow> (Some (ErrInvalidConfiguration err), cm)
      | None \<Rightarrow>
          (case toMap config of
             Inl err \<Rightarrow> (Some (ErrConvertToMap err), cm)
           | Inr configMap \<Rightarrow>
               (case storage_Save pluginID configMap (cm_storage cm) of
                  (Some err, st') \<Rightarrow> (Some (ErrSaveConfig err), cm\<lparr>cm_storage := st'\<rparr>)
                | (None, st') \<Rightarrow>
                    (None, cm\<lparr>cm_storage := st',
                              cm_cache := (cm_cache cm)(pluginID \<mapsto> config)\<rparr>))))"


subsection \<open>GenerateSchemaFromStruct\<close>

text \<open>
  What reflection reads of one field of the configuration struct: whether it is exported,
  the class of its kind, and its tags. The signed, unsigned and float kinds are one class
  each, as \<open>getFieldType\<close> treats them alike.
\<close>

datatype reflect_Kind = KString | KInt | KUint | KFloat | KBool | KSlice | KOther

record StructField =
  sf_Exported :: bool
  sf_Kind :: reflect_Kind
  sf_json :: string
  sf_label :: string
  sf_description :: string
  sf_required :: string
  sf_default :: string

fun getFieldType :: "reflect_Kind \<Rightarrow> string" where
  "getFieldType KString = ''string''"
| "getFieldType KInt = ''number''"
| "getFieldType KUint = ''number''"
| "getFieldType KFloat = ''number''"
| "getFieldType KBool = ''boolean''"
| "getFieldType KSlice = ''multiselect''"
| "getFieldType KOther = ''string''"

definition schemaField :: "StructField \<Rightarrow> ConfigField" where
  "schemaField f =
     \<lparr>fld_Name = sf_json f, fld_Type = getFieldType (sf_Kind f), fld_Label = sf_label f,
      fld_Description = sf_description f,
      fld_Default = (if sf_default f \<noteq> [] then VString (sf_default f) else VNil),
      fld_Required = (sf_required f = ''true''), fld_Options = [],
      fld_Validation = None\<rparr>"

definition GenerateSchemaFromStruct :: "StructField list \<Rightarrow> ConfigSchema" where
  "GenerateSchemaFromStruct t =
     \<lparr>sch_Fields = map schemaField (filter (\<lambda>f. sf_Exported f \<and> sf_json f \<noteq> ''-'') t)\<rparr>"

section \<open>Plugins and routes (plugin.go)\<close>

record Request =
  req_Method :: string
  req_Path :: string
  req_Session :: "int option"

record Response =
  resp_Status :: nat
  resp_Body :: string

type_synonym Handler = "Request \<Rightarrow> Response"

type_synonym Middleware = "Handler \<Rightarrow> Handler"

type_synonym HookHandler = "gvalue \<Rightarrow> gvalue \<times> error option"

record Route =
  rt_Method :: string
  rt_Path :: string
  rt_Handler :: Handler
  rt_Middlewares :: "Middleware list"

text \<open>
  A plugin, as the registry sees it: its id and dependencies, what its lifecycle methods
  return (as the test plugin of the repository fixes them), the struct type of
  \<open>Config()\<close>, the default configuration, and the optional capabilities
  (\<open>None\<close> when the plugin does not implement the interface). \<open>Hooks()\<close> is a Go map,
  listed here in the order the \<open>range\<close> loop visits it.
\<close>

record Plugin =
  plg_ID :: string
  plg_Dependencies :: "string list"
  plg_Init :: "error option"
  plg_Start :: "error option"
  plg_Stop :: "error option"
  plg_Config :: "StructField list"
  plg_DefaultConfig :: gvalue
  plg_Service :: "gvalue option"
  plg_Hooks :: "(string \<times> HookHandler) list option"
  plg_Routes :: "Route list option"
  plg_AdminRoutes :: "Route list option"

section \<open>Registry (registry.go)\<close>

text \<open>
  The host router is a \<open>chi.Mux\<close> outside the registry, which holds a pointer to it
  (\<open>None\<close> is nil). The calls the registry makes on a router are recorded in
  \<open>bound\<close>, each with the address of the router and the binding asked for.
\<close>

datatype mux_op = MuxGet | MuxPost | MuxPut | MuxDelete | MuxPatch | MuxHandleFunc

record Binding =
  bd_Op :: mux_op
  bd_Path :: string
  bd_Handler :: Handler

type_synonym Mux = nat

record Registry =
  plugins :: "string \<rightharpoonup> Plugin"
  services :: "string \<rightharpoonup> gvalue"
  hooks :: "string \<Rightarrow> HookHandler list"
  router :: "Mux option"
  bound :: "(Mux \<times> Binding) list"
  routes :: "Route list"
  initialized :: "string \<Rightarrow> bool"
  started :: "string \<Rightarrow> bool"
  configManager :: ConfigManager

text \<open>
  \<open>NewRegistry\<close>: the storage is the file-backed one on \<open>./configs/plugins\<close>, or the
  in-memory one when the directory cannot be made; here it is given.
\<close>

definition NewRegistry :: "Mux option \<Rightarrow> ConfigStorage \<Rightarrow> Registry" where
  "NewRegistry mux configStorage =
     \<lparr>plugins = Map.empty, services = Map.empty, hooks = (\<lambda>name. []), router = mux,
      bound = [], routes = [], initialized = (\<lambda>k. False), started = (\<lambda>k. False),
      configManager = NewConfigManagerWithStorage configStorage\<rparr>"

definition muxMethod :: "string \<Rightarrow> mux_op" where
  "muxMethod m =
     (if m = ''GET'' then MuxGet
      else if m = ''POST'' then MuxPost
      else if m = ''PUT'' then MuxPut
      else if m = ''DELETE'' then MuxDelete
      else if m = ''PATCH'' then MuxPatch
      else MuxHandleFunc)"

text \<open>The binding \<open>registerRoute\<close> makes: the middlewares wrap the handler from the last to the first.\<close>

definition bindingOf :: "Route \<Rightarrow> Binding" where
  "bindingOf route =
     \<lparr>bd_Op = muxMethod (rt_Method route), bd_Path = rt_Path route,
      bd_Handler = foldr (\<lambda>mw handler. mw handler) (rt_Middlewares route) (rt_Handler route)\<rparr>"

definition registerRoute :: "Route \<Rightarrow> Registry \<Rightarrow> Registry" where
  "registerRoute route r =
     (case router r of
        None \<Rightarrow> r\<lparr>routes := routes r @ [route]\<rparr>
      | Some mux \<Rightarrow> r\<lparr>bound := bound r @ [(mux, bindingOf route)]\<rparr>)"

text \<open>
  \<open>SetRouter\<close>: the loop ranges over the queue as it is when the loop starts; then the
  queue is set to nil.
\<close>

definition SetRouter :: "Mux option \<Rightarrow> Registry \<Rightarrow> Registry" where
  "SetRouter mux r =
     (let r1 = r\<lparr>router := mux\<rparr>;
          r2 = fold registerRoute (routes r) r1
      in r2\<lparr>routes := []\<rparr>)"

definition adminRoute :: "Route \<Rightarrow> Route" where
  "adminRoute route = route\<lparr>rt_Path := ''/admin'' @ rt_Path route\<rparr>"

definition registerHook :: "string \<times> HookHandler \<Rightarrow> Registry \<Rightarrow> Registry" where
  "registerHook nh r = r\<lparr>hooks := (hooks r)(fst nh := hooks r (fst nh) @ [snd nh])\<rparr>"

text \<open>The part of \<open>Register\<close> after the two checks, in the order of the source.\<close>

definition installPlugin :: "Plugin \<Rightarrow> Registry \<Rightarrow> Registry" where
  "installPlugin p r =
     (let id = plg_ID p;
          r1 = r\<lparr>plugins := (plugins r)(id \<mapsto> p)\<rparr>;
          cm1 = snd (SetConfig id (plg_DefaultConfig p) (configManager r1));
          cm2 = RegisterSchema id (GenerateSchemaFromStruct (plg_Config p)) cm1;
          r2 = r1\<lparr>configManager := cm2\<rparr>;
          r3 = (case plg_Service p of
                  Some sv \<Rightarrow> r2\<lparr>services := (services r2)(id \<mapsto> sv)\<rparr>
                | None \<Rightarrow> r2);
          r4 = (case plg_Hooks p of
                  Some hs \<Rightarrow> fold registerHook hs r3
                | None \<Rightarrow> r3);
          r5 = (case plg_Routes p of
                  Some rs \<Rightarrow> fold registerRoute rs r4
                | None \<Rightarrow> r4)
      in case plg_AdminRoutes p of
           Some rs \<Rightarrow> fold (\<lambda>route. registerRoute (adminRoute route)) rs r5
         | None \<Rightarrow> r5)"

definition Register :: "Plugin \<Rightarrow> Registry \<Rightarrow> error option \<times> Registry" where
  "Register p r =
     (let id = plg_ID p in
      if plugins r id \<noteq> None then (Some (ErrAlreadyRegistered id), r)
      else case find (\<lambda>dep. plugins r dep = None) (plg_Dependencies p) of
             Some dep \<Rightarrow> (Some (ErrRequires id dep), r)
           | None \<Rightarrow> (None, installPlugin p r))"

definition IsEnabled :: "string \<Rightarrow> Registry \<Rightarrow> bool" where
  "IsEnabled pluginID r = started r pluginID"

text \<open>
  A \<open>range\<close> over the plugin table visits every plugin once, in an order the language
  leaves open: the functions that loop over the table take the order of the keys.
\<close>

definition List_plugins :: "string list \<Rightarrow> Registry \<Rightarrow> Plugin list" where
  "List_plugins order r = List.map_filter (plugins r) order"

subsection \<open>ExecuteHook\<close>

fun runHandlers :: "HookHandler list \<Rightarrow> gvalue \<Rightarrow> gvalue \<times> error option" where
  "runHandlers [] result = (result, None)"
| "runHandlers (handler # rest) result =
     (case handler result of
        (result', Some err) \<Rightarrow> (VNil, Some err)
      | (result', None) \<Rightarrow> runHandlers rest result')"

definition ExecuteHook :: "string \<Rightarrow> gvalue \<Rightarrow> Registry \<Rightarrow> gvalue \<times> error option" where
  "ExecuteHook hookName data r = runHandlers (hooks r hookName) data"

subsection \<open>Initialize, Start, Stop\<close>

text \<open>
  \<open>initializePlugin\<close> calls itself on the dependencies with no bound of its own: the
  model counts the nesting of the calls down from a given depth, and \<open>None\<close> is a
  recursion that went deeper. A result is the error, the registry, and the ids of the
  plugins whose \<open>Init\<close> was called, in the order of the calls.
\<close>

fun initializePlugin ::
      "nat \<Rightarrow> Registry \<Rightarrow> Plugin \<Rightarrow> (error option \<times> Registry \<times> string list) option"
  and initializeDeps ::
      "nat \<Rightarrow> Registry \<Rightarrow> string list \<Rightarrow> (error option \<times> Registry \<times> string list) option"
where
  "initializePlugin 0 r p = None"
| "initializePlugin (Suc n) r p =
     (let id = plg_ID p in
      if initialized r id then Some (None, r, [])
      else case initializeDeps n r (plg_Dependencies p) of
             None \<Rightarrow> None
           | Some (Some err, r1, t1) \<Rightarrow> Some (Some err, r1, t1)
           | Some (None, r1, t1) \<Rightarrow>
               (case plg_Init p of
                  Some err \<Rightarrow> Some (Some (ErrInitialize id err), r1, t1 @ [id])
                | None \<Rightarrow>
                    Some (None, r1\<lparr>initialized := (initialized r1)(id := True)\<rparr>, t1 @ [id])))"
| "initializeDeps n r [] = Some (None, r, [])"
| "initializeDeps n r (depID # rest) =
     (case plugins r depID of
        None \<Rightarrow> initializeDeps n r rest
      | Some dep \<Rightarrow>
          (case initializePlugin n r dep of
             None \<Rightarrow> None
           | Some (Some err, r1, t1) \<Rightarrow> Some (Some err, r1, t1)
           | Some (None, r1, t1) \<Rightarrow>
               (case initializeDeps n r1 rest of
                  None \<Rightarrow> None
                | Some (res, r2, t2) \<Rightarrow> Some (res, r2, t1 @ t2))))"

fun Initialize ::
  "nat \<Rightarrow> string list \<Rightarrow> Registry \<Rightarrow> (error option \<times> Registry \<times> string list) option" where
  "Initialize n [] r = Some (None, r, [])"
| "Initialize n (k # ks) r =
     (case plugins r k of
        None \<Rightarrow> Initialize n ks r
      | Some p \<Rightarrow>
          (case initializePlugin n r p of
             None \<Rightarrow> None
           | Some (Some err, r1, t1) \<Rightarrow> Some (Some err, r1, t1)
           | Some (None, r1, t1) \<Rightarrow>
               (case Initialize n ks r1 of
                  None \<Rightarrow> None
                | Some (res, r2, t2) \<Rightarrow> Some (res, r2, t1 @ t2))))"

fun startPlugin ::
      "nat \<Rightarrow> Registry \<Rightarrow> Plugin \<Rightarrow> (error option \<times> Registry \<times> string list) option"
  and startDeps ::
      "nat \<Rightarrow> Registry \<Rightarrow> string list \<Rightarrow> (error option \<times> Registry \<times> string list) option"
where
  "startPlugin 0 r p = None"
| "startPlugin (Suc n) r p =
     (let id = plg_ID p in
      if started r id then Some (None, r, [])
      else case startDeps n r (plg_Dependencies p) of
             None \<Rightarrow> None
           | Some (Some err, r1, t1) \<Rightarrow> Some (Some err, r1, t1)
           | Some (None, r1, t1) \<Rightarrow>
               (case plg_Start p of
                  Some err \<Rightarrow> Some (Some (ErrStart id err), r1, t1 @ [id])
                | None \<Rightarrow>
                    Some (None, r1\<lparr>started := (started r1)(id := True)\<rparr>, t1 @ [id])))"
| "startDeps n r [] = Some (None, r, [])"
| "startDeps n r (depID # rest) =
     (case plugins r depID of
        None \<Rightarrow> startDeps n r rest
      | Some dep \<Rightarrow>
          (case startPlugin n r dep of
             None \<Rightarrow> None
           | Some (Some err, r1, t1) \<Rightarrow> Some (Some err, r1, t1)
           | Some (None, r1, t1) \<Rightarrow>
               (case startDeps n r1 rest of
                  None \<Rightarrow> None
                | Some (res, r2, t2) \<Rightarrow> Some (res, r2, t1 @ t2))))"

fun Start ::
  "nat \<Rightarrow> string list \<Rightarrow> Registry \<Rightarrow> (error option \<times> Registry \<times> string list) option" where
  "Start n [] r = Some (None, r, [])"
| "Start n (k # ks) r =
     (case plugins r k of
        None \<Rightarrow> Start n ks r
      | Some p \<Rightarrow>
          (case startPlugin n r p of
             None \<Rightarrow> None
           | Some (Some err, r1, t1) \<Rightarrow> Some (Some err, r1, t1)
           | Some (None, r1, t1) \<Rightarrow>
               (case Start n ks r1 of
                  None \<Rightarrow> None
                | Some (res, r2, t2) \<Rightarrow> Some (res, r2, t1 @ t2))))"

text \<open>
  The loop of \<open>Stop\<close>: the errors collected, the registry, and the ids of the plugins
  whose \<open>Stop\<close> was called.
\<close>

fun stopLoop :: "string list \<Rightarrow> Registry \<Rightarrow> error list \<times> Registry \<times> string list" where
  "stopLoop [] r = ([], r, [])"
| "stopLoop (k # ks) r =
     (case plugins r k of
        None \<Rightarrow> stopLoop ks r
      | Some p \<Rightarrow>
          if started r (plg_ID p) then
            (let errs1 = (case plg_Stop p of
                            Some err \<Rightarrow> [ErrStop (plg_ID p) err]
                          | None \<Rightarrow> []);
                 r1 = r\<lparr>started := (started r)(plg_ID p := False)\<rparr>
             in case stopLoop ks r1 of
                  (errs, r2, t) \<Rightarrow> (errs1 @ errs, r2, plg_ID p # t))
          else stopLoop ks r)"

definition Stop :: "string list \<Rightarrow> Registry \<Rightarrow> error option \<times> Registry \<times> string list" where
  "Stop order r =
     (case stopLoop order r of
        (errs, r', t) \<Rightarrow>
          (if length errs > 0 then Some (ErrStoppingPlugins errs) else None, r', t))"

section \<open>Auth providers (auth.go) and the auth plugin\<close>

datatype AuthUser = GuestUser | BasicAuthUser int string

text \<open>The \<open>AuthProvider\<close> interface, as the methods of a provider.\<close>

record AuthProvider =
  prov_Name :: string
  prov_GetUser :: "Request \<Rightarrow> AuthUser option"
  prov_IsAuthenticated :: "Request \<Rightarrow> bool"
  prov_RequireAuth :: Middleware
  prov_RequireRole :: "string list \<Rightarrow> Middleware"

definition NoAuthProvider :: AuthProvider where
  "NoAuthProvider =
     \<lparr>prov_Name = ''none'',
      prov_GetUser = (\<lambda>req. Some GuestUser),
      prov_IsAuthenticated = (\<lambda>req. True),
      prov_RequireAuth = (\<lambda>next. next),
      prov_RequireRole = (\<lambda>roles next. next)\<rparr>"

record AuthPlugin =
  providers :: "string \<rightharpoonup> AuthProvider"
  active :: string
  cfg_ActiveProvider :: string

definition NewPlugin :: AuthPlugin where
  "NewPlugin = \<lparr>providers = Map.empty, active = [], cfg_ActiveProvider = ''basic''\<rparr>"

definition RegisterProvider :: "AuthProvider \<Rightarrow> AuthPlugin \<Rightarrow> error option \<times> AuthPlugin" where
  "RegisterProvider provider p =
     (let name = prov_Name provider in
      if providers p name \<noteq> None then (Some (ErrPlugin (''provider '' @ name @ '' already registered'')), p)
      else (None, p\<lparr>providers := (providers p)(name \<mapsto> provider)\<rparr>))"

definition SetActiveProvider :: "string \<Rightarrow> AuthPlugin \<Rightarrow> error option \<times> AuthPlugin" where
  "SetActiveProvider name p =
     (if providers p name = None then (Some (ErrPlugin (''provider '' @ name @ '' not found'')), p)
      else (None, p\<lparr>active := name, cfg_ActiveProvider := name\<rparr>))"

text \<open>\<open>Init\<close> registers the basic provider (given here) and the no-auth provider.\<close>

definition Init :: "AuthProvider \<Rightarrow> AuthPlugin \<Rightarrow> AuthPlugin" where
  "Init basic p =
     (let p1 = snd (RegisterProvider basic p);
          p2 = snd (RegisterProvider NoAuthProvider p1)
      in p2\<lparr>active := cfg_ActiveProvider p2\<rparr>)"

definition GetActiveProvider :: "AuthPlugin \<Rightarrow> AuthProvider" where
  "GetActiveProvider p =
     (case providers p (active p) of
        Some provider \<Rightarrow> provider
      | None \<Rightarrow> NoAuthProvider)"

definition Middleware :: "AuthPlugin \<Rightarrow> Middleware" where
  "Middleware p = prov_RequireAuth (GetActiveProvider p)"

definition RequireAdmin :: "AuthPlugin \<Rightarrow> Middleware" where
  "RequireAdmin p = prov_RequireRole (GetActiveProvider p) [''admin'']"

section \<open>Auxiliary notions and the inputs of the examples\<close>


text \<open>A file system with one document next to the configuration directory.\<close>

definition secretFS :: filesystem where
  "secretFS =
     \<lparr>fs_files = [Join ''configs'' ''../secret.json'' \<mapsto> JSONText (VMap [(''token'', VString ''t'')])],
      fs_denied = (\<lambda>p. False), fs_short = Map.empty, fs_ops = []\<rparr>"

text \<open>The test plugin of the repository: no capability, every lifecycle method succeeds.\<close>

definition testPlugin :: "string \<Rightarrow> string list \<Rightarrow> Plugin" where
  "testPlugin pid deps =
     \<lparr>plg_ID = pid, plg_Dependencies = deps, plg_Init = None, plg_Start = None,
      plg_Stop = None, plg_Config = [], plg_DefaultConfig = VStruct [],
      plg_Service = None, plg_Hooks = None, plg_Routes = None, plg_AdminRoutes = None\<rparr>"

definition appendHandler :: "string \<Rightarrow> HookHandler" where
  "appendHandler suffix v =
     (case v of VString s \<Rightarrow> (VString (s @ suffix), None) | _ \<Rightarrow> (v, None))"

definition failingHandler :: "error \<Rightarrow> HookHandler" where
  "failingHandler err v = (v, Some err)"

definition hookPlugin :: "string \<Rightarrow> string \<Rightarrow> HookHandler \<Rightarrow> Plugin" where
  "hookPlugin pid hookName handler =
     (testPlugin pid [])\<lparr>plg_Hooks := Some [(hookName, handler)]\<rparr>"

text \<open>
  The values a hook pipeline passes along: the starting value, then each handler's output
  as the input of the next.
\<close>

fun pipeline :: "HookHandler list \<Rightarrow> gvalue \<Rightarrow> gvalue list" where
  "pipeline [] v = [v]"
| "pipeline (h # hs) v = v # pipeline hs (fst (h v))"

text \<open>A sequence of \<open>Register\<close> calls, whatever each one returns.\<close>

fun registerAll :: "Plugin list \<Rightarrow> Registry \<Rightarrow> Registry" where
  "registerAll [] r = r"
| "registerAll (p # ps) r = registerAll ps (snd (Register p r))"

definition memRegistry :: Registry where
  "memRegistry = NewRegistry None (MemoryConfigStorage Map.empty)"

text \<open>The routes a plugin hands to \<open>registerRoute\<close>, the admin routes prefixed.\<close>

definition contributed :: "Plugin \<Rightarrow> Route list" where
  "contributed p =
     (case plg_Routes p of Some rs \<Rightarrow> rs | None \<Rightarrow> []) @
     map adminRoute (case plg_AdminRoutes p of Some rs \<Rightarrow> rs | None \<Rightarrow> [])"

text \<open>The handlers a plugin registers under one hook name.\<close>

definition hooksOf :: "Plugin \<Rightarrow> string \<Rightarrow> HookHandler list" where
  "hooksOf p name =
     map snd (filter (\<lambda>nh. fst nh = name) (case plg_Hooks p of Some hs \<Rightarrow> hs | None \<Rightarrow> []))"

text \<open>Two hookable plugins on the hook \<open>before_save\<close>: both succeed, or the second fails.\<close>

definition saveRegistry :: Registry where
  "saveRegistry =
     registerAll [hookPlugin ''a'' ''before_save'' (appendHandler ''|A''),
                  hookPlugin ''b'' ''before_save'' (appendHandler ''|B'')] memRegistry"

definition failRegistry :: Registry where
  "failRegistry =
     registerAll [hookPlugin ''a'' ''before_save'' (appendHandler ''|A''),
                  hookPlugin ''f'' ''before_save'' (failingHandler (ErrPlugin ''boom''))] memRegistry"

text \<open>What each call of a sequence of \<open>Register\<close> calls returns.\<close>

fun outcomes :: "Plugin list \<Rightarrow> Registry \<Rightarrow> error option list" where
  "outcomes [] r = []"
| "outcomes (p # ps) r = fst (Register p r) # outcomes ps (snd (Register p r))"

text \<open>The errors of the \<open>Stop\<close> methods of the plugins of a list, wrapped as \<open>Stop\<close> wraps them.\<close>

definition stopErrors :: "Registry \<Rightarrow> string list \<Rightarrow> error list" where
  "stopErrors r t =
     concat (map (\<lambda>k. case plugins r k of
                         Some p \<Rightarrow> (case plg_Stop p of Some err \<Rightarrow> [ErrStop k err] | None \<Rightarrow> [])
                       | None \<Rightarrow> []) t)"

text \<open>A plugin whose \<open>Stop\<close> fails, and a registry in which it and a second plugin run.\<close>

definition stubbornPlugin :: Plugin where
  "stubbornPlugin = (testPlugin ''p'' [])\<lparr>plg_Stop := Some (ErrPlugin ''busy'')\<rparr>"

definition pqRegistry :: Registry where
  "pqRegistry = registerAll [stubbornPlugin, testPlugin ''q'' []] memRegistry"

definition runningRegistry :: Registry where
  "runningRegistry = pqRegistry\<lparr>started := (\<lambda>k. k = ''p'' \<or> k = ''q'')\<rparr>"

text \<open>
  A sequence of calls on the registry by the host: \<open>Register\<close> and \<open>SetRouter\<close>.
  \<open>accepted\<close> lists the plugins whose \<open>Register\<close> call succeeded.
\<close>

datatype call = CallRegister Plugin | CallSetRouter "Mux option"

fun run :: "call list \<Rightarrow> Registry \<Rightarrow> Registry" where
  "run [] r = r"
| "run (CallRegister p # cs) r = run cs (snd (Register p r))"
| "run (CallSetRouter mux # cs) r = run cs (SetRouter mux r)"

fun accepted :: "call list \<Rightarrow> Registry \<Rightarrow> Plugin list" where
  "accepted [] r = []"
| "accepted (CallRegister p # cs) r =
     (if fst (Register p r) = None then [p] else []) @ accepted cs (snd (Register p r))"
| "accepted (CallSetRouter mux # cs) r = accepted cs (SetRouter mux r)"

fun isSetRouter :: "call \<Rightarrow> bool" where
  "isSetRouter (CallSetRouter mux) = True"
| "isSetRouter (CallRegister p) = False"

text \<open>A routable plugin with the one route \<open>GET /hello\<close>.\<close>

definition helloHandler :: Handler where
  "helloHandler req = \<lparr>resp_Status = 200, resp_Body = ''hello''\<rparr>"

definition helloRoute :: Route where
  "helloRoute = \<lparr>rt_Method = ''GET'', rt_Path = ''/hello'', rt_Handler = helloHandler, rt_Middlewares = []\<rparr>"

definition helloPlugin :: Plugin where
  "helloPlugin = (testPlugin ''hello'' [])\<lparr>plg_Routes := Some [helloRoute]\<rparr>"








text \<open>
  A list of plugin ids is ordered by dependency from a set of ids already seen: no id is
  seen twice, and the dependencies of each id were seen before it.
\<close>

fun dep_ordered :: "(string \<rightharpoonup> Plugin) \<Rightarrow> string set \<Rightarrow> string list \<Rightarrow> bool" where
  "dep_ordered P seen [] = True"
| "dep_ordered P seen (x # xs) =
     (x \<notin> seen \<and> (\<exists>p. P x = Some p \<and> set (plg_Dependencies p) \<subseteq> seen) \<and>
      dep_ordered P (insert x seen) xs)"

text \<open>The lifecycle method succeeds for every plugin of the list.\<close>

definition all_ok :: "(Plugin \<Rightarrow> error option) \<Rightarrow> (string \<rightharpoonup> Plugin) \<Rightarrow> string list \<Rightarrow> bool" where
  "all_ok meth P t = (\<forall>x \<in> set t. \<exists>p. P x = Some p \<and> meth p = None)"

text \<open>
  A ranking of the plugin table: every plugin is stored under its own id, its
  dependencies are registered, and each has a smaller rank.
\<close>

definition ranked :: "(string \<Rightarrow> nat) \<Rightarrow> (string \<rightharpoonup> Plugin) \<Rightarrow> bool" where
  "ranked rk P =
     (\<forall>k p. P k = Some p \<longrightarrow>
        plg_ID p = k \<and> (\<forall>d \<in> set (plg_Dependencies p). P d \<noteq> None \<and> rk d < rk k))"

text \<open>
  What a traversal that starts with the flags \<open>fl\<close> has done when it returns
  \<open>res\<close>, the flags \<open>fl2\<close> and the calls \<open>t\<close>: the calls are on ranks
  below the bound and ordered by dependency, only the last call may have failed, and
  after a success the flags are the old ones and those of the plugins called.
\<close>

definition adv ::
  "(Plugin \<Rightarrow> error option) \<Rightarrow> (string \<Rightarrow> nat) \<Rightarrow> (string \<rightharpoonup> Plugin) \<Rightarrow> (string \<Rightarrow> bool) \<Rightarrow> nat \<Rightarrow>
   error option \<Rightarrow> (string \<Rightarrow> bool) \<Rightarrow> string list \<Rightarrow> bool" where
  "adv meth rk P fl bnd res fl2 t =
     ((\<forall>x \<in> set t. rk x < bnd) \<and> dep_ordered P {x. fl x} t \<and> all_ok meth P (butlast t) \<and>
      (res = None \<longrightarrow> all_ok meth P t \<and> fl2 = (\<lambda>x. fl x \<or> x \<in> set t)))"

text \<open>\<open>a\<close> occurs in the list and \<open>b\<close> occurs after its first occurrence.\<close>

definition precedes :: "string \<Rightarrow> string \<Rightarrow> string list \<Rightarrow> bool" where
  "precedes a b t = (b \<in> set (drop 1 (dropWhile (\<lambda>x. x \<noteq> a) t)))"

text \<open>
  The calls of a lifecycle method are in dependency order: no plugin is called twice, and
  before a plugin is called the method was called on each of its dependencies and
  succeeded.
\<close>

definition in_dependency_order ::
  "(Plugin \<Rightarrow> error option) \<Rightarrow> (string \<rightharpoonup> Plugin) \<Rightarrow> string list \<Rightarrow> bool" where
  "in_dependency_order meth P t =
     (distinct t \<and>
      list_all (\<lambda>x. case P x of
                      None \<Rightarrow> False
                    | Some p \<Rightarrow>
                        list_all (\<lambda>d. precedes d x t \<and>
                                       (case P d of Some q \<Rightarrow> meth q = None | None \<Rightarrow> False))
                          (plg_Dependencies p)) t)"

text \<open>Plugin A, and plugin B that depends on A.\<close>

definition abRegistry :: Registry where
  "abRegistry = registerAll [testPlugin ''A'' [], testPlugin ''B'' [''A'']] memRegistry"




section \<open>Properties\<close>

subsection \<open>Length bounds of string fields\<close>

text \<open>
  Claim C9, as stated, fails: the letter e with an acute accent is, in UTF-8, the two bytes C3 A9 and one
  code point. With a maximum length of 1 it is within the bound counted in code points,
  and \<open>validateField\<close> rejects it; with a minimum length of 2 it is below the bound
  counted in code points, and \<open>validateField\<close> accepts it.
\<close>

theorem validateField_code_points_counterexample:
  "code_points [CHR 0xC3, CHR 0xA9] = 1 \<and>
   validateField (VString [CHR 0xC3, CHR 0xA9]) (stringField ''name'' None (Some 1))
     = Some (ErrMaxLength 1) \<and>
   validateField (VString [CHR 0xC3, CHR 0xA9]) (stringField ''name'' (Some 2) None) = None"
  by (simp add: code_points_def is_continuation_def validateField_def validateString_def
      stringField_def)

text \<open>
  Claim C9, amended: for a string field with a validation block, a string value passes
  exactly when its length in bytes is at least the minimum length (when one is given) and
  at most the maximum length (when one is given).
\<close>

theorem validateField_string_bytes:
  assumes "fld_Type field = ''string''" and "fld_Validation field = Some vl"
  shows "validateField (VString s) field = None \<longleftrightarrow>
           (\<forall>mn. val_MinLen vl = Some mn \<longrightarrow> mn \<le> int (length s)) \<and>
           (\<forall>mx. val_MaxLen vl = Some mx \<longrightarrow> int (length s) \<le> mx)"
  using assms
  by (auto simp: validateField_def validateString_def Let_def split: option.splits)

theorem validateField_string_bytes_witness:
  "validateField (VString [CHR 0xC3, CHR 0xA9]) (stringField ''name'' (Some 1) (Some 2)) = None \<and>
   validateField (VString [CHR 0xC3, CHR 0xA9]) (stringField ''name'' (Some 1) (Some 1)) \<noteq> None"
  using validateField_string_bytes [of "stringField ''name'' (Some 1) (Some 2)"
          "\<lparr>val_Min = None, val_Max = None, val_MinLen = Some 1, val_MaxLen = Some 2,
            val_Regex = []\<rparr>"
          "[CHR 0xC3, CHR 0xA9]"]
        validateField_string_bytes [of "stringField ''name'' (Some 1) (Some 1)"
          "\<lparr>val_Min = None, val_Max = None, val_MinLen = Some 1, val_MaxLen = Some 1,
            val_Regex = []\<rparr>"
          "[CHR 0xC3, CHR 0xA9]"]
  by (simp add: stringField_def)

subsection \<open>The fallback of the auth plugin\<close>

text \<open>
  Claim C10: when the name of the active provider is not in the provider table,
  \<open>GetActiveProvider\<close> is the \<open>NoAuthProvider\<close>: \<open>IsAuthenticated\<close> holds of
  every request, \<open>RequireAuth\<close> and \<open>RequireRole\<close> return the handler they are
  given, and so do the plugin's \<open>Middleware()\<close> and \<open>RequireAdmin()\<close>.
\<close>

theorem GetActiveProvider_fallback:
  assumes "providers p (active p) = None"
  shows "GetActiveProvider p = NoAuthProvider \<and>
         prov_IsAuthenticated (GetActiveProvider p) req \<and>
         prov_RequireAuth (GetActiveProvider p) next = next \<and>
         prov_RequireRole (GetActiveProvider p) roles next = next \<and>
         Middleware p next = next \<and>
         RequireAdmin p next = next"
  using assms
  by (simp add: GetActiveProvider_def NoAuthProvider_def Middleware_def RequireAdmin_def)

text \<open>The plugin before \<open>Init\<close> has run: no provider is registered.\<close>

theorem GetActiveProvider_fallback_witness:
  "providers NewPlugin (active NewPlugin) = None \<and>
   GetActiveProvider NewPlugin = NoAuthProvider \<and>
   Middleware NewPlugin = (\<lambda>next. next) \<and>
   RequireAdmin NewPlugin = (\<lambda>next. next)"
proof -
  have h: "providers NewPlugin (active NewPlugin) = None"
    by (simp add: NewPlugin_def)
  have "\<And>next. Middleware NewPlugin next = next" "\<And>next. RequireAdmin NewPlugin next = next"
    using GetActiveProvider_fallback [OF h] by blast+
  then show ?thesis
    using h GetActiveProvider_fallback [OF h] by auto
qed

subsection \<open>Plugin ids in the file-backed storage\<close>

text \<open>
  Claim C2 on the code: \<open>Save\<close> validates the plugin id before anything else and leaves
  the file system alone, but \<open>Load\<close> and \<open>Delete\<close> do not call
  \<open>validatePluginID\<close>. On the id \<open>../secret\<close>, which \<open>validatePluginID\<close>
  rejects, \<open>Load\<close> reads the file outside the configuration directory and returns its
  content, and \<open>Delete\<close> removes it.
\<close>

theorem JSONFile_Load_Delete_unvalidated:
  "validatePluginID ''../secret'' = Some (ErrInvalidPluginID ''../secret'') \<and>
   JSONFile_Save ''configs'' ''../secret'' [] secretFS
     = (Some (ErrInvalidPluginID ''../secret''), secretFS) \<and>
   JSONFile_Load ''configs'' ''../secret'' secretFS
     = (Inr [(''token'', VString ''t'')],
        secretFS\<lparr>fs_ops := [OpRead (Join ''configs'' ''../secret.json'')]\<rparr>) \<and>
   JSONFile_Delete ''configs'' ''../secret'' secretFS
     = (None, secretFS\<lparr>fs_files := Map.empty,
                        fs_ops := [OpRemove (Join ''configs'' ''../secret.json'')]\<rparr>)"
  by (simp add: validatePluginID_def JSONFile_Load_def JSONFile_Delete_def JSONFile_Save_def
      configPath_def readFile_def removeFile_def secretFS_def json_Unmarshal_def Let_def)

subsection \<open>The fields of the registry after a registration\<close>

lemma registerRoute_fields [simp]:
  "plugins (registerRoute rt r) = plugins r"
  "services (registerRoute rt r) = services r"
  "hooks (registerRoute rt r) = hooks r"
  "router (registerRoute rt r) = router r"
  "initialized (registerRoute rt r) = initialized r"
  "started (registerRoute rt r) = started r"
  "configManager (registerRoute rt r) = configManager r"
  by (simp_all add: registerRoute_def split: option.splits)

lemma fold_registerRoute_fields [simp]:
  "plugins (fold (\<lambda>rt. registerRoute (f rt)) rs r) = plugins r"
  "services (fold (\<lambda>rt. registerRoute (f rt)) rs r) = services r"
  "hooks (fold (\<lambda>rt. registerRoute (f rt)) rs r) = hooks r"
  "router (fold (\<lambda>rt. registerRoute (f rt)) rs r) = router r"
  "initialized (fold (\<lambda>rt. registerRoute (f rt)) rs r) = initialized r"
  "started (fold (\<lambda>rt. registerRoute (f rt)) rs r) = started r"
  "configManager (fold (\<lambda>rt. registerRoute (f rt)) rs r) = configManager r"
  by (induction rs arbitrary: r; simp)+

lemma fold_registerRoute_queue:
  "routes (fold (\<lambda>rt. registerRoute (f rt)) rs r) =
     (if router r = None then routes r @ map f rs else routes r)"
  by (induction rs arbitrary: r) (auto simp: registerRoute_def split: option.splits)

lemma fold_registerRoute_bound:
  "bound (fold (\<lambda>rt. registerRoute (f rt)) rs r) =
     (case router r of None \<Rightarrow> bound r
      | Some mux \<Rightarrow> bound r @ map (\<lambda>rt. (mux, bindingOf (f rt))) rs)"
  by (induction rs arbitrary: r) (auto simp: registerRoute_def split: option.splits)

lemma registerHook_fields [simp]:
  "plugins (registerHook nh r) = plugins r"
  "services (registerHook nh r) = services r"
  "router (registerHook nh r) = router r"
  "routes (registerHook nh r) = routes r"
  "bound (registerHook nh r) = bound r"
  "initialized (registerHook nh r) = initialized r"
  "started (registerHook nh r) = started r"
  "configManager (registerHook nh r) = configManager r"
  by (simp_all add: registerHook_def)

lemma fold_registerHook_fields [simp]:
  "plugins (fold registerHook hs r) = plugins r"
  "services (fold registerHook hs r) = services r"
  "router (fold registerHook hs r) = router r"
  "routes (fold registerHook hs r) = routes r"
  "bound (fold registerHook hs r) = bound r"
  "initialized (fold registerHook hs r) = initialized r"
  "started (fold registerHook hs r) = started r"
  "configManager (fold registerHook hs r) = configManager r"
  by (induction hs arbitrary: r; simp)+

lemma fold_registerHook_hooks:
  "hooks (fold registerHook hs r) name = hooks r name @ map snd (filter (\<lambda>nh. fst nh = name) hs)"
  by (induction hs arbitrary: r) (auto simp: registerHook_def)

lemma installPlugin_fields:
  "plugins (installPlugin p r) = (plugins r)(plg_ID p \<mapsto> p)"
  "router (installPlugin p r) = router r"
  "initialized (installPlugin p r) = initialized r"
  "started (installPlugin p r) = started r"
  "hooks (installPlugin p r) name = hooks r name @ hooksOf p name"
  "services (installPlugin p r) =
     (case plg_Service p of Some sv \<Rightarrow> (services r)(plg_ID p \<mapsto> sv) | None \<Rightarrow> services r)"
  "configManager (installPlugin p r) =
     RegisterSchema (plg_ID p) (GenerateSchemaFromStruct (plg_Config p))
       (snd (SetConfig (plg_ID p) (plg_DefaultConfig p) (configManager r)))"
  using fold_registerRoute_fields [where f = "\<lambda>rt. rt"]
  by (simp_all add: installPlugin_def Let_def hooksOf_def fold_registerHook_hooks
      split: option.splits)

lemma installPlugin_routes:
  "routes (installPlugin p r) = (if router r = None then routes r @ contributed p else routes r)"
  using fold_registerRoute_fields [where f = "\<lambda>rt. rt"] fold_registerRoute_queue [where f = "\<lambda>rt. rt"]
  by (auto simp: installPlugin_def Let_def contributed_def fold_registerRoute_queue
      split: option.splits)

lemma installPlugin_bound:
  "bound (installPlugin p r) =
     (case router r of None \<Rightarrow> bound r
      | Some mux \<Rightarrow> bound r @ map (\<lambda>rt. (mux, bindingOf rt)) (contributed p))"
  using fold_registerRoute_fields [where f = "\<lambda>rt. rt"] fold_registerRoute_bound [where f = "\<lambda>rt. rt"]
  by (auto simp: installPlugin_def Let_def contributed_def fold_registerRoute_bound
      split: option.splits)

subsection \<open>The outcome of Register\<close>

lemma Register_ok_iff:
  "fst (Register p r) = None \<longleftrightarrow>
     plugins r (plg_ID p) = None \<and> (\<forall>dep \<in> set (plg_Dependencies p). plugins r dep \<noteq> None)"
  by (auto simp: Register_def Let_def find_None_iff find_Some_iff split: option.splits)

lemma Register_ok: "fst (Register p r) = None \<Longrightarrow> snd (Register p r) = installPlugin p r"
  by (auto simp: Register_def Let_def split: option.splits if_splits)

lemma Register_failed: "fst (Register p r) \<noteq> None \<Longrightarrow> snd (Register p r) = r"
  by (auto simp: Register_def Let_def split: option.splits if_splits)

subsection \<open>The hook pipeline\<close>

lemma runHandlers_all_ok:
  "(\<forall>i<length hs. snd ((hs ! i) (pipeline hs v ! i)) = None) \<Longrightarrow>
     runHandlers hs v = (last (pipeline hs v), None)"
proof (induction hs arbitrary: v)
  case Nil
  then show ?case by simp
next
  case (Cons h hs)
  have h0: "snd (h v) = None" using Cons.prems by force
  have "\<forall>i<length hs. snd ((hs ! i) (pipeline hs (fst (h v)) ! i)) = None"
  proof (intro allI impI)
    fix i assume "i < length hs"
    then show "snd ((hs ! i) (pipeline hs (fst (h v)) ! i)) = None"
      using Cons.prems [rule_format, of "Suc i"] by simp
  qed
  then have "runHandlers hs (fst (h v)) = (last (pipeline hs (fst (h v))), None)"
    by (rule Cons.IH)
  moreover have "pipeline hs (fst (h v)) \<noteq> []" by (cases hs) simp_all
  ultimately show ?case using h0 by (cases "h v") simp
qed

lemma runHandlers_first_error:
  "i < length hs \<Longrightarrow> snd ((hs ! i) (pipeline hs v ! i)) = Some e \<Longrightarrow>
   (\<forall>j<i. snd ((hs ! j) (pipeline hs v ! j)) = None) \<Longrightarrow>
     runHandlers hs v = (VNil, Some e)"
proof (induction hs arbitrary: v i)
  case Nil
  then show ?case by simp
next
  case (Cons h hs)
  show ?case
  proof (cases i)
    case 0
    then show ?thesis using Cons.prems by (cases "h v") simp
  next
    case (Suc k)
    have h0: "snd (h v) = None" using Cons.prems(3) Suc by force
    have k: "k < length hs" "snd ((hs ! k) (pipeline hs (fst (h v)) ! k)) = Some e"
      using Cons.prems Suc by simp_all
    have "\<forall>j<k. snd ((hs ! j) (pipeline hs (fst (h v)) ! j)) = None"
    proof (intro allI impI)
      fix j assume "j < k"
      then show "snd ((hs ! j) (pipeline hs (fst (h v)) ! j)) = None"
        using Cons.prems(3) [rule_format, of "Suc j"] Suc by simp
    qed
    then have "runHandlers hs (fst (h v)) = (VNil, Some e)"
      using Cons.IH k by blast
    then show ?thesis using h0 by (cases "h v") simp
  qed
qed

text \<open>
  Claim C1, amended: a successful \<open>Register\<close> appends the plugin's handlers to the
  handlers already registered under each hook name, so the handlers of a name stand in
  registration order. \<open>ExecuteHook\<close> applies them in that order, each output the
  next input. When no handler fails it returns the last output and no error. When a
  handler fails and every handler before it succeeded, it returns that handler's error
  together with the nil value (not an intermediate value), whatever handlers follow.
\<close>

theorem ExecuteHook_pipeline:
  "(fst (Register p r) = None \<longrightarrow>
      hooks (snd (Register p r)) name = hooks r name @ hooksOf p name) \<and>
   ((\<forall>i<length (hooks r name).
        snd ((hooks r name ! i) (pipeline (hooks r name) data ! i)) = None) \<longrightarrow>
      ExecuteHook name data r = (last (pipeline (hooks r name) data), None)) \<and>
   (\<forall>i e. i < length (hooks r name) \<and>
          snd ((hooks r name ! i) (pipeline (hooks r name) data ! i)) = Some e \<and>
          (\<forall>j<i. snd ((hooks r name ! j) (pipeline (hooks r name) data ! j)) = None) \<longrightarrow>
      ExecuteHook name data r = (VNil, Some e))"
  using runHandlers_all_ok [of "hooks r name" data] runHandlers_first_error [of _ "hooks r name" data]
  by (auto simp: ExecuteHook_def Register_ok installPlugin_fields)

lemma hooks_failRegistry:
  "hooks failRegistry ''before_save'' = [appendHandler ''|A'', failingHandler (ErrPlugin ''boom'')]"
  by (simp add: failRegistry_def memRegistry_def NewRegistry_def Register_ok Register_ok_iff
      installPlugin_fields hookPlugin_def testPlugin_def hooksOf_def)

lemma hooks_saveRegistry:
  "hooks saveRegistry ''before_save'' = [appendHandler ''|A'', appendHandler ''|B'']"
  by (simp add: saveRegistry_def memRegistry_def NewRegistry_def Register_ok Register_ok_iff
      installPlugin_fields hookPlugin_def testPlugin_def hooksOf_def)

text \<open>
  Claim C1, as stated, fails: with the handlers A (appends \<open>|A\<close>) and a failing
  handler registered in this order, \<open>ExecuteHook\<close> on \<open>x\<close> returns the error
  with nil, not with \<open>x|A\<close>, the output of the last handler that succeeded.
\<close>

theorem ExecuteHook_last_value_counterexample:
  "ExecuteHook ''before_save'' (VString ''x'') failRegistry = (VNil, Some (ErrPlugin ''boom'')) \<and>
   pipeline (hooks failRegistry ''before_save'') (VString ''x'') ! 1 = VString ''x|A''"
  by (simp add: ExecuteHook_def hooks_failRegistry appendHandler_def failingHandler_def)

theorem ExecuteHook_pipeline_witness:
  "ExecuteHook ''before_save'' (VString ''x'') saveRegistry = (VString ''x|A|B'', None) \<and>
   ExecuteHook ''before_save'' (VString ''x'') failRegistry = (VNil, Some (ErrPlugin ''boom'')) \<and>
   hooks (snd (Register (hookPlugin ''a'' ''before_save'' (appendHandler ''|A'')) memRegistry)) ''before_save''
     = [appendHandler ''|A'']"
proof -
  have a: "ExecuteHook ''before_save'' (VString ''x'') saveRegistry = (VString ''x|A|B'', None)"
    using ExecuteHook_pipeline [of "testPlugin ''z'' []" saveRegistry "''before_save''" "VString ''x''"]
    by (simp add: hooks_saveRegistry appendHandler_def less_Suc_eq numeral_2_eq_2)
  have b: "ExecuteHook ''before_save'' (VString ''x'') failRegistry = (VNil, Some (ErrPlugin ''boom''))"
    using ExecuteHook_pipeline [of "testPlugin ''z'' []" failRegistry "''before_save''" "VString ''x''",
        THEN conjunct2, THEN conjunct2, rule_format, of 1 "ErrPlugin ''boom''"]
    by (simp add: hooks_failRegistry appendHandler_def failingHandler_def)
  have c: "hooks (snd (Register (hookPlugin ''a'' ''before_save'' (appendHandler ''|A'')) memRegistry)) ''before_save''
     = [appendHandler ''|A'']"
    using ExecuteHook_pipeline [of "hookPlugin ''a'' ''before_save'' (appendHandler ''|A'')" memRegistry "''before_save''" "VString ''x''"]
    by (simp add: Register_ok_iff memRegistry_def NewRegistry_def hookPlugin_def testPlugin_def hooksOf_def)
  show ?thesis using a b c by simp
qed

subsection \<open>Register fails as a whole\<close>

lemma find_SomeD: "find P xs = Some x \<Longrightarrow> x \<in> set xs \<and> P x"
  by (induction xs) (auto split: if_splits)

lemma Register_missing:
  assumes "plugins r (plg_ID p) = None" and "dep0 \<in> set (plg_Dependencies p)" and "plugins r dep0 = None"
  shows "\<exists>dep \<in> set (plg_Dependencies p).
           plugins r dep = None \<and> fst (Register p r) = Some (ErrRequires (plg_ID p) dep)"
proof -
  have "find (\<lambda>dep. plugins r dep = None) (plg_Dependencies p) \<noteq> None"
    using assms(2,3) by (simp add: find_None_iff) blast
  then obtain d where d: "find (\<lambda>dep. plugins r dep = None) (plg_Dependencies p) = Some d"
    by blast
  then have "d \<in> set (plg_Dependencies p)" "plugins r d = None"
    using find_SomeD [OF d] by simp_all
  moreover have "fst (Register p r) = Some (ErrRequires (plg_ID p) d)"
    using assms(1) d by (simp add: Register_def Let_def)
  ultimately show ?thesis by blast
qed

lemma Register_keeps: "plugins r k \<noteq> None \<Longrightarrow> plugins (snd (Register p r)) k \<noteq> None"
  by (cases "fst (Register p r) = None") (auto simp: Register_ok Register_failed installPlugin_fields)

lemma registerAll_keeps: "plugins r k \<noteq> None \<Longrightarrow> plugins (registerAll ps r) k \<noteq> None"
proof (induction ps arbitrary: r)
  case Nil
  then show ?case by simp
next
  case (Cons p ps)
  show ?case
    using Cons.IH [OF Register_keeps [OF Cons.prems]] by simp
qed

lemma outcomes_length [simp]: "length (outcomes ps r) = length ps"
  by (induction ps arbitrary: r) auto

lemma outcomes_nth:
  "j < length ps \<Longrightarrow> outcomes ps r ! j = fst (Register (ps ! j) (registerAll (take j ps) r))"
proof (induction ps arbitrary: r j)
  case Nil
  then show ?case by simp
next
  case (Cons p ps)
  then show ?case by (cases j) simp_all
qed

lemma registerAll_take_Suc:
  "i < length ps \<Longrightarrow> registerAll (take (Suc i) ps) r = snd (Register (ps ! i) (registerAll (take i ps) r))"
proof (induction ps arbitrary: r i)
  case Nil
  then show ?case by simp
next
  case (Cons p ps)
  then show ?case by (cases i) simp_all
qed

lemma registerAll_append: "registerAll (xs @ ys) r = registerAll ys (registerAll xs r)"
  by (induction xs arbitrary: r) auto

lemma outcomes_once:
  assumes "i < j" "j < length ps" "plg_ID (ps ! i) = plg_ID (ps ! j)" "outcomes ps r ! i = None"
  shows "outcomes ps r ! j = Some (ErrAlreadyRegistered (plg_ID (ps ! j)))"
proof -
  let ?ri = "registerAll (take i ps) r"
  have i: "i < length ps" using assms by simp
  have ok: "fst (Register (ps ! i) ?ri) = None"
    using assms(4) outcomes_nth [OF i] by simp
  then have "plugins (registerAll (take (Suc i) ps) r) (plg_ID (ps ! i)) \<noteq> None"
    using registerAll_take_Suc [OF i] by (simp add: Register_ok installPlugin_fields)
  moreover have "take (Suc i) (take j ps) = take (Suc i) ps"
    using assms(1) by (simp add: min_def)
  then have "take j ps = take (Suc i) ps @ drop (Suc i) (take j ps)"
    using append_take_drop_id [of "Suc i" "take j ps"] by simp
  then have "registerAll (take j ps) r
               = registerAll (drop (Suc i) (take j ps)) (registerAll (take (Suc i) ps) r)"
    using registerAll_append [of "take (Suc i) ps" "drop (Suc i) (take j ps)" r] by simp
  ultimately have "plugins (registerAll (take j ps) r) (plg_ID (ps ! j)) \<noteq> None"
    using registerAll_keeps assms(3) by simp
  then show ?thesis
    using outcomes_nth [OF assms(2)] by (simp add: Register_def Let_def)
qed

text \<open>
  Claim C4, amended: a \<open>Register\<close> call whose plugin id is already registered fails;
  a call with an unused id that names a dependency not registered fails, naming such a
  dependency; a failed call leaves the registry as it was; a successful call stores the
  plugin under its id. So of any two calls of a sequence with equal ids at most one
  succeeds: when the earlier one succeeds, the later one fails as a duplicate. After a
  failed registration on a new registry \<open>List()\<close> is empty.
\<close>

theorem Register_atomic:
  "(plugins r (plg_ID p) \<noteq> None \<longrightarrow>
      fst (Register p r) = Some (ErrAlreadyRegistered (plg_ID p))) \<and>
   (plugins r (plg_ID p) = None \<and> (\<exists>dep \<in> set (plg_Dependencies p). plugins r dep = None) \<longrightarrow>
      (\<exists>dep \<in> set (plg_Dependencies p).
          plugins r dep = None \<and> fst (Register p r) = Some (ErrRequires (plg_ID p) dep))) \<and>
   (fst (Register p r) \<noteq> None \<longrightarrow> snd (Register p r) = r) \<and>
   (fst (Register p r) = None \<longrightarrow> plugins (snd (Register p r)) (plg_ID p) = Some p) \<and>
   (\<forall>i j. i < j \<and> j < length ps \<and> plg_ID (ps ! i) = plg_ID (ps ! j) \<and> outcomes ps r ! i = None \<longrightarrow>
      outcomes ps r ! j = Some (ErrAlreadyRegistered (plg_ID (ps ! j)))) \<and>
   (fst (Register p (NewRegistry mux st)) \<noteq> None \<longrightarrow>
      List_plugins order (snd (Register p (NewRegistry mux st))) = [])"
proof (intro conjI)
  show "plugins r (plg_ID p) \<noteq> None \<longrightarrow>
      fst (Register p r) = Some (ErrAlreadyRegistered (plg_ID p))"
    by (simp add: Register_def Let_def)
  show "plugins r (plg_ID p) = None \<and> (\<exists>dep \<in> set (plg_Dependencies p). plugins r dep = None) \<longrightarrow>
      (\<exists>dep \<in> set (plg_Dependencies p).
          plugins r dep = None \<and> fst (Register p r) = Some (ErrRequires (plg_ID p) dep))"
    using Register_missing by blast
  show "fst (Register p r) \<noteq> None \<longrightarrow> snd (Register p r) = r"
    by (simp add: Register_failed)
  show "fst (Register p r) = None \<longrightarrow> plugins (snd (Register p r)) (plg_ID p) = Some p"
    by (simp add: Register_ok installPlugin_fields)
  show "\<forall>i j. i < j \<and> j < length ps \<and> plg_ID (ps ! i) = plg_ID (ps ! j) \<and> outcomes ps r ! i = None \<longrightarrow>
      outcomes ps r ! j = Some (ErrAlreadyRegistered (plg_ID (ps ! j)))"
    using outcomes_once by blast
  show "fst (Register p (NewRegistry mux st)) \<noteq> None \<longrightarrow>
      List_plugins order (snd (Register p (NewRegistry mux st))) = []"
    by (simp add: Register_failed List_plugins_def NewRegistry_def List.map_filter_def)
qed

text \<open>
  Claim C4, as stated, fails in its count: two calls with the same id and a dependency
  that is not registered both fail, so not exactly one of them succeeds.
\<close>

theorem Register_exactly_one_counterexample:
  "outcomes [testPlugin ''B'' [''A''], testPlugin ''B'' [''A'']] memRegistry
     = [Some (ErrRequires ''B'' ''A''), Some (ErrRequires ''B'' ''A'')]"
  by (simp add: Register_def Let_def memRegistry_def NewRegistry_def testPlugin_def)

theorem Register_atomic_witness:
  "outcomes [testPlugin ''A'' [], testPlugin ''B'' [''A''], testPlugin ''A'' []] memRegistry ! 2
     = Some (ErrAlreadyRegistered ''A'') \<and>
   fst (Register (testPlugin ''B'' [''A'']) memRegistry) = Some (ErrRequires ''B'' ''A'') \<and>
   snd (Register (testPlugin ''B'' [''A'']) memRegistry) = memRegistry \<and>
   List_plugins [''A'', ''B''] (snd (Register (testPlugin ''B'' [''A'']) memRegistry)) = [] \<and>
   plugins (snd (Register (testPlugin ''A'' []) memRegistry)) ''A'' = Some (testPlugin ''A'' [])"
proof -
  let ?ps = "[testPlugin ''A'' [], testPlugin ''B'' [''A''], testPlugin ''A'' []]"
  have o0: "outcomes ?ps memRegistry ! 0 = None"
    by (simp add: Register_ok_iff memRegistry_def NewRegistry_def testPlugin_def)
  have a: "outcomes ?ps memRegistry ! 2 = Some (ErrAlreadyRegistered ''A'')"
    using Register_atomic [of memRegistry "testPlugin ''A'' []" ?ps None "MemoryConfigStorage Map.empty" "[]",
        THEN conjunct2, THEN conjunct2, THEN conjunct2, THEN conjunct2, THEN conjunct1, rule_format, of 0 2]
      o0
    by (simp add: testPlugin_def)
  have b: "fst (Register (testPlugin ''B'' [''A'']) memRegistry) = Some (ErrRequires ''B'' ''A'')"
    using Register_atomic [of memRegistry "testPlugin ''B'' [''A'']" "[]" None "MemoryConfigStorage Map.empty" "[]"]
    by (simp add: memRegistry_def NewRegistry_def testPlugin_def)
  have c: "snd (Register (testPlugin ''B'' [''A'']) memRegistry) = memRegistry"
    using Register_atomic [of memRegistry "testPlugin ''B'' [''A'']" "[]" None "MemoryConfigStorage Map.empty" "[]"] b
    by simp
  have d: "List_plugins [''A'', ''B''] (snd (Register (testPlugin ''B'' [''A'']) memRegistry)) = []"
    using Register_atomic [of memRegistry "testPlugin ''B'' [''A'']" "[]" None "MemoryConfigStorage Map.empty" "[''A'', ''B'']"] b
    by (simp add: memRegistry_def List_plugins_def NewRegistry_def List.map_filter_def)
  have e: "plugins (snd (Register (testPlugin ''A'' []) memRegistry)) ''A'' = Some (testPlugin ''A'' [])"
    using Register_atomic [of memRegistry "testPlugin ''A'' []" "[]" None "MemoryConfigStorage Map.empty" "[]"]
    by (simp add: Register_ok_iff memRegistry_def NewRegistry_def testPlugin_def)
  show ?thesis using a b c d e by simp
qed

subsection \<open>The deferred route queue\<close>

lemma SetRouter_fields [simp]:
  "plugins (SetRouter mux r) = plugins r"
  "router (SetRouter mux r) = mux"
  "routes (SetRouter mux r) = []"
  "configManager (SetRouter mux r) = configManager r"
  using fold_registerRoute_fields [where f = "\<lambda>rt. rt"]
  by (simp_all add: SetRouter_def Let_def)

lemma SetRouter_bound:
  "bound (SetRouter mux r) =
     (case mux of None \<Rightarrow> bound r
      | Some m \<Rightarrow> bound r @ map (\<lambda>rt. (m, bindingOf rt)) (routes r))"
  using fold_registerRoute_bound [where f = "\<lambda>rt. rt"]
  by (simp add: SetRouter_def Let_def split: option.splits)

lemma Register_router [simp]: "router (snd (Register p r)) = router r"
  by (cases "fst (Register p r) = None") (simp_all add: Register_ok Register_failed installPlugin_fields)

lemma run_accounting:
  "CallSetRouter None \<notin> set cs \<Longrightarrow>
   mset (map snd (bound (run cs r))) + mset (map bindingOf (routes (run cs r)))
     = mset (map snd (bound r)) + mset (map bindingOf (routes r))
       + mset (map bindingOf (concat (map contributed (accepted cs r))))"
proof (induction cs arbitrary: r)
  case Nil
  then show ?case by simp
next
  case (Cons c cs)
  have rest: "CallSetRouter None \<notin> set cs" using Cons.prems by simp
  show ?case
  proof (cases c)
    case (CallRegister p)
    show ?thesis
    proof (cases "fst (Register p r) = None")
      case True
      have "mset (map snd (bound (installPlugin p r))) + mset (map bindingOf (routes (installPlugin p r)))
              = mset (map snd (bound r)) + mset (map bindingOf (routes r))
                + mset (map bindingOf (contributed p))"
        by (cases "router r") (simp_all add: installPlugin_routes installPlugin_bound comp_def)
      then show ?thesis
        using Cons.IH [OF rest, of "installPlugin p r"] CallRegister True
        by (simp add: Register_ok)
    next
      case False
      then show ?thesis
        using Cons.IH [OF rest, of r] CallRegister by (auto simp: Register_failed)
    qed
  next
    case (CallSetRouter mux)
    then obtain m where m: "mux = Some m" using Cons.prems by (cases mux) auto
    have "mset (map snd (bound (SetRouter mux r))) + mset (map bindingOf (routes (SetRouter mux r)))
              = mset (map snd (bound r)) + mset (map bindingOf (routes r))"
      using m by (simp add: SetRouter_bound comp_def)
    then show ?thesis
      using Cons.IH [OF rest, of "SetRouter mux r"] CallSetRouter by simp
  qed
qed

lemma run_deferred:
  "router r = None \<Longrightarrow> \<forall>c \<in> set cs. \<not> isSetRouter c \<Longrightarrow>
   router (run cs r) = None \<and> bound (run cs r) = bound r \<and>
   routes (run cs r) = routes r @ concat (map contributed (accepted cs r))"
proof (induction cs arbitrary: r)
  case Nil
  then show ?case by simp
next
  case (Cons c cs)
  then obtain p where c: "c = CallRegister p" by (cases c) auto
  have rest: "\<forall>c \<in> set cs. \<not> isSetRouter c" using Cons.prems by simp
  show ?case
  proof (cases "fst (Register p r) = None")
    case True
    have r1: "router (installPlugin p r) = None" using Cons.prems(1) by (simp add: installPlugin_fields)
    show ?thesis
      using Cons.IH [OF r1 rest] c True Cons.prems(1)
      by (simp add: Register_ok installPlugin_routes installPlugin_bound)
  next
    case False
    then show ?thesis
      using Cons.IH [OF Cons.prems(1) rest] c by (auto simp: Register_failed)
  qed
qed

text \<open>
  What holds of the route queue when every \<open>SetRouter\<close> call passes a router: on
  a registry made with no router, as long as no \<open>SetRouter\<close> call was made
  nothing is bound and the queue holds the routes of every accepted plugin;
  \<open>SetRouter\<close> with a router binds every queued route once on it, in the order of
  the queue, and empties the queue; a second \<open>SetRouter\<close> call binds nothing;
  and over every sequence of \<open>Register\<close> calls and such \<open>SetRouter\<close>
  calls, each route contributed by an accepted plugin is either bound once or queued
  once, never both and never twice.
\<close>

theorem deferred_routes:
  "((\<forall>c \<in> set cs. \<not> isSetRouter c) \<longrightarrow>
      bound (run cs (NewRegistry None st)) = [] \<and>
      routes (run cs (NewRegistry None st))
        = concat (map contributed (accepted cs (NewRegistry None st)))) \<and>
   (CallSetRouter None \<notin> set cs \<longrightarrow>
      mset (map snd (bound (run cs (NewRegistry None st))))
        + mset (map bindingOf (routes (run cs (NewRegistry None st))))
      = mset (map bindingOf (concat (map contributed (accepted cs (NewRegistry None st)))))) \<and>
   bound (SetRouter (Some m) r) = bound r @ map (\<lambda>rt. (m, bindingOf rt)) (routes r) \<and>
   routes (SetRouter (Some m) r) = [] \<and>
   bound (SetRouter mux (SetRouter (Some m) r)) = bound (SetRouter (Some m) r) \<and>
   routes (SetRouter mux (SetRouter (Some m) r)) = []"
proof -
  let ?r0 = "NewRegistry None st"
  have r0: "router ?r0 = None" "bound ?r0 = []" "routes ?r0 = []"
    by (simp_all add: NewRegistry_def)
  have a: "(\<forall>c \<in> set cs. \<not> isSetRouter c) \<longrightarrow>
      bound (run cs ?r0) = [] \<and> routes (run cs ?r0) = concat (map contributed (accepted cs ?r0))"
    using run_deferred [OF r0(1), of cs] r0 by simp
  have b: "CallSetRouter None \<notin> set cs \<longrightarrow>
      mset (map snd (bound (run cs ?r0))) + mset (map bindingOf (routes (run cs ?r0)))
      = mset (map bindingOf (concat (map contributed (accepted cs ?r0))))"
    using run_accounting [of cs ?r0] r0 by simp
  have c: "bound (SetRouter mux (SetRouter (Some m) r)) = bound (SetRouter (Some m) r)"
    by (cases mux) (simp_all add: SetRouter_bound [of _ "SetRouter (Some m) r"])
  show ?thesis using a b c by (simp add: SetRouter_bound)
qed

lemma hello_registered:
  "fst (Register helloPlugin memRegistry) = None"
  "router memRegistry = None" "bound memRegistry = []" "routes memRegistry = []"
  "contributed helloPlugin = [helloRoute]"
  by (simp_all add: Register_ok_iff memRegistry_def NewRegistry_def helloPlugin_def testPlugin_def
      contributed_def)

lemma hello_queued:
  "routes (snd (Register helloPlugin memRegistry)) = [helloRoute]"
  "bound (snd (Register helloPlugin memRegistry)) = []"
  by (simp_all add: Register_ok hello_registered installPlugin_routes installPlugin_bound)

text \<open>
  Claim C5 on the code: \<open>registerRoute\<close> stores a route for later when no router
  is set, and \<open>SetRouter\<close> hands every queued route to it and then clears the
  queue. On \<open>SetRouter(nil)\<close> after a routable plugin was registered, the routes
  are queued again by \<open>registerRoute\<close> and then dropped with the queue: the registry
  has no router, nothing is bound, the route is no longer queued, and a later
  \<open>SetRouter\<close> with a router binds nothing.
\<close>

theorem SetRouter_nil_loses_routes:
  "accepted [CallRegister helloPlugin, CallSetRouter None] memRegistry = [helloPlugin] \<and>
   contributed helloPlugin = [helloRoute] \<and>
   routes (run [CallRegister helloPlugin] memRegistry) = [helloRoute] \<and>
   router (run [CallRegister helloPlugin, CallSetRouter None] memRegistry) = None \<and>
   bound (run [CallRegister helloPlugin, CallSetRouter None] memRegistry) = [] \<and>
   routes (run [CallRegister helloPlugin, CallSetRouter None] memRegistry) = [] \<and>
   bound (run [CallRegister helloPlugin, CallSetRouter None, CallSetRouter (Some 0)] memRegistry) = [] \<and>
   routes (run [CallRegister helloPlugin, CallSetRouter None, CallSetRouter (Some 0)] memRegistry) = []"
  by (simp add: hello_registered hello_queued SetRouter_bound)

theorem deferred_routes_witness:
  "bound (run [CallRegister helloPlugin] memRegistry) = [] \<and>
   routes (run [CallRegister helloPlugin] memRegistry) = [helloRoute] \<and>
   bound (SetRouter (Some 0) (run [CallRegister helloPlugin] memRegistry))
     = [(0, bindingOf helloRoute)] \<and>
   bound (SetRouter (Some 0) (SetRouter (Some 0) (run [CallRegister helloPlugin] memRegistry)))
     = [(0, bindingOf helloRoute)] \<and>
   mset (map snd (bound (run [CallRegister helloPlugin, CallSetRouter (Some 0), CallSetRouter (Some 0)] memRegistry)))
     + mset (map bindingOf (routes (run [CallRegister helloPlugin, CallSetRouter (Some 0), CallSetRouter (Some 0)] memRegistry)))
     = {#bindingOf helloRoute#}"
proof -
  let ?r1 = "run [CallRegister helloPlugin] memRegistry"
  have a: "bound ?r1 = [] \<and> routes ?r1 = [helloRoute]"
    using deferred_routes [of "[CallRegister helloPlugin]" "MemoryConfigStorage Map.empty" 0 ?r1 None]
    by (simp add: memRegistry_def [symmetric] hello_registered)
  have b: "bound (SetRouter (Some 0) ?r1) = [(0, bindingOf helloRoute)]"
    "bound (SetRouter (Some 0) (SetRouter (Some 0) ?r1)) = [(0, bindingOf helloRoute)]"
    using deferred_routes [of "[]" "MemoryConfigStorage Map.empty" 0 ?r1 "Some 0"] a
    by simp_all
  have c: "mset (map snd (bound (run [CallRegister helloPlugin, CallSetRouter (Some 0), CallSetRouter (Some 0)] memRegistry)))
     + mset (map bindingOf (routes (run [CallRegister helloPlugin, CallSetRouter (Some 0), CallSetRouter (Some 0)] memRegistry)))
     = {#bindingOf helloRoute#}"
    using deferred_routes [of "[CallRegister helloPlugin, CallSetRouter (Some 0), CallSetRouter (Some 0)]"
        "MemoryConfigStorage Map.empty" 0 ?r1 None]
    by (simp add: memRegistry_def [symmetric] hello_registered)
  show ?thesis using a b c by simp
qed

subsection \<open>SetConfig when it fails\<close>



lemma readFile_ops: "fst (readFile p (fs\<lparr>fs_ops := ops\<rparr>)) = fst (readFile p fs)"
  by (simp add: readFile_def Let_def split: option.splits)














subsection \<open>The default configuration\<close>







subsection \<open>Dependency order of the lifecycle\<close>

lemma dep_ordered_append:
  "dep_ordered P seen (xs @ ys) = (dep_ordered P seen xs \<and> dep_ordered P (seen \<union> set xs) ys)"
  by (induction xs arbitrary: seen) auto

lemma dep_ordered_distinct: "dep_ordered P seen t \<Longrightarrow> distinct t \<and> set t \<inter> seen = {}"
proof (induction t arbitrary: seen)
  case Nil
  then show ?case by simp
next
  case (Cons x xs)
  have "dep_ordered P (insert x seen) xs" "x \<notin> seen" using Cons.prems by simp_all
  then have "distinct xs \<and> set xs \<inter> insert x seen = {}" using Cons.IH by blast
  then show ?case using \<open>x \<notin> seen\<close> by auto
qed

lemma adv_nil: "adv meth rk P fl bnd None fl []"
  by (simp add: adv_def all_ok_def)

lemma adv_mono: "adv meth rk P fl bnd res fl2 t \<Longrightarrow> bnd \<le> bnd2 \<Longrightarrow> adv meth rk P fl bnd2 res fl2 t"
  by (auto simp: adv_def)

lemma adv_append:
  assumes "adv meth rk P fl bnd None fl1 t1" and "adv meth rk P fl1 bnd res fl2 t2"
  shows "adv meth rk P fl bnd res fl2 (t1 @ t2)"
proof -
  have d1: "fl1 = (\<lambda>x. fl x \<or> x \<in> set t1)" and ok1: "all_ok meth P t1"
    using assms(1) by (simp_all add: adv_def)
  have s: "{x. fl1 x} = {x. fl x} \<union> set t1" using d1 by auto
  have o: "dep_ordered P {x. fl x} (t1 @ t2)"
    using assms s by (simp add: adv_def dep_ordered_append)
  have b: "all_ok meth P (butlast (t1 @ t2))"
    using assms ok1 by (auto simp: adv_def all_ok_def butlast_append dest: in_set_butlastD)
  have r: "\<forall>x \<in> set (t1 @ t2). rk x < bnd" using assms by (auto simp: adv_def)
  have f: "res = None \<longrightarrow> all_ok meth P (t1 @ t2) \<and> fl2 = (\<lambda>x. fl x \<or> x \<in> set (t1 @ t2))"
    using assms ok1 d1 by (auto simp: adv_def all_ok_def)
  show ?thesis using o b r f by (simp add: adv_def)
qed

lemma adv_snoc:
  assumes "adv meth rk P fl (rk k) None fl1 t1" and "\<not> fl k"
      and "P k = Some p" and "set (plg_Dependencies p) \<subseteq> {x. fl1 x}"
      and "res = None \<longrightarrow> meth p = None \<and> fl2 = fl1(k := True)"
  shows "adv meth rk P fl (Suc (rk k)) res fl2 (t1 @ [k])"
proof -
  have d1: "fl1 = (\<lambda>x. fl x \<or> x \<in> set t1)" and ok1: "all_ok meth P t1"
    and rk1: "\<forall>x \<in> set t1. rk x < rk k" and o1: "dep_ordered P {x. fl x} t1"
    using assms(1) by (simp_all add: adv_def)
  have nk: "k \<notin> set t1" using rk1 by auto
  have s: "{x. fl1 x} = {x. fl x} \<union> set t1" using d1 by auto
  have o: "dep_ordered P {x. fl x} (t1 @ [k])"
    using o1 nk assms(2,3,4) s by (simp add: dep_ordered_append)
  have r: "\<forall>x \<in> set (t1 @ [k]). rk x < Suc (rk k)" using rk1 by auto
  have f: "res = None \<longrightarrow> all_ok meth P (t1 @ [k]) \<and> fl2 = (\<lambda>x. fl x \<or> x \<in> set (t1 @ [k]))"
    using assms(3,5) ok1 d1 by (auto simp: all_ok_def fun_eq_iff)
  show ?thesis using o r f ok1 by (simp add: adv_def)
qed

lemma initializeDeps_adv:
  assumes A: "\<And>r p. plugins r = P \<Longrightarrow> P (plg_ID p) = Some p \<Longrightarrow> rk (plg_ID p) < n \<Longrightarrow>
                \<exists>res r' t. initializePlugin n r p = Some (res, r', t) \<and> plugins r' = P \<and>
                   adv plg_Init rk P (initialized r) (Suc (rk (plg_ID p))) res (initialized r') t \<and>
                   (res = None \<longrightarrow> initialized r' (plg_ID p))"
      and rnk: "ranked rk P"
  shows "plugins r = P \<Longrightarrow> \<forall>d \<in> set ds. P d \<noteq> None \<longrightarrow> rk d < bnd \<and> rk d < n \<Longrightarrow>
         \<exists>res r' t. initializeDeps n r ds = Some (res, r', t) \<and> plugins r' = P \<and>
            adv plg_Init rk P (initialized r) bnd res (initialized r') t \<and>
            (res = None \<longrightarrow> (\<forall>d \<in> set ds. P d \<noteq> None \<longrightarrow> initialized r' d))"
proof (induction ds arbitrary: r)
  case Nil
  then show ?case by (simp add: adv_nil)
next
  case (Cons d ds)
  have rest: "\<forall>d \<in> set ds. P d \<noteq> None \<longrightarrow> rk d < bnd \<and> rk d < n" using Cons.prems(2) by simp
  show ?case
  proof (cases "P d")
    case None
    then show ?thesis using Cons.IH [OF Cons.prems(1) rest] Cons.prems(1) by simp
  next
    case (Some dep)
    then have id: "plg_ID dep = d" using rnk unfolding ranked_def by blast
    have dr: "Suc (rk d) \<le> bnd" "rk d < n" using Cons.prems(2) Some by simp_all
    obtain res1 r1 t1 where s1: "initializePlugin n r dep = Some (res1, r1, t1)" "plugins r1 = P"
      "adv plg_Init rk P (initialized r) (Suc (rk d)) res1 (initialized r1) t1"
      "res1 = None \<longrightarrow> initialized r1 d"
      using A [OF Cons.prems(1), of dep] Some id dr by auto
    have a1: "adv plg_Init rk P (initialized r) bnd res1 (initialized r1) t1"
      using adv_mono [OF s1(3) dr(1)] .
    show ?thesis
    proof (cases res1)
      case (Some e)
      then show ?thesis using s1 a1 Cons.prems(1) \<open>P d = Some dep\<close> by simp
    next
      case None
      obtain res2 r2 t2 where s2: "initializeDeps n r1 ds = Some (res2, r2, t2)" "plugins r2 = P"
        "adv plg_Init rk P (initialized r1) bnd res2 (initialized r2) t2"
        "res2 = None \<longrightarrow> (\<forall>d \<in> set ds. P d \<noteq> None \<longrightarrow> initialized r2 d)"
        using Cons.IH [OF s1(2) rest] by blast
      have a: "adv plg_Init rk P (initialized r) bnd res2 (initialized r2) (t1 @ t2)"
        using adv_append a1 s2(3) None by blast
      have "res2 = None \<longrightarrow> initialized r2 d"
        using s1(4) None s2(3) by (auto simp: adv_def)
      then show ?thesis using s1(1) s2 a None Cons.prems(1) \<open>P d = Some dep\<close> by simp
    qed
  qed
qed

lemma initializePlugin_done:
  "initialized r (plg_ID p) \<Longrightarrow> initializePlugin (Suc n) r p = Some (None, r, [])"
  by simp

lemma initializePlugin_deps_failed:
  "\<not> initialized r (plg_ID p) \<Longrightarrow> initializeDeps n r (plg_Dependencies p) = Some (Some e, r1, t1) \<Longrightarrow>
   initializePlugin (Suc n) r p = Some (Some e, r1, t1)"
  by simp

lemma initializePlugin_deps_ok:
  "\<not> initialized r (plg_ID p) \<Longrightarrow> initializeDeps n r (plg_Dependencies p) = Some (None, r1, t1) \<Longrightarrow>
   initializePlugin (Suc n) r p =
     (case plg_Init p of
        Some err \<Rightarrow> Some (Some (ErrInitialize (plg_ID p) err), r1, t1 @ [plg_ID p])
      | None \<Rightarrow> Some (None, r1\<lparr>initialized := (initialized r1)(plg_ID p := True)\<rparr>, t1 @ [plg_ID p]))"
  by (simp add: Let_def)

lemma initializePlugin_adv:
  assumes rnk: "ranked rk P"
  shows "plugins r = P \<Longrightarrow> P (plg_ID p) = Some p \<Longrightarrow> rk (plg_ID p) < n \<Longrightarrow>
         \<exists>res r' t. initializePlugin n r p = Some (res, r', t) \<and> plugins r' = P \<and>
            adv plg_Init rk P (initialized r) (Suc (rk (plg_ID p))) res (initialized r') t \<and>
            (res = None \<longrightarrow> initialized r' (plg_ID p))"
proof (induction n arbitrary: r p)
  case 0
  then show ?case by simp
next
  case (Suc n)
  let ?id = "plg_ID p"
  show ?case
  proof (cases "initialized r ?id")
    case True
    have "initializePlugin (Suc n) r p = Some (None, r, [])"
      using True by (rule initializePlugin_done)
    moreover have "adv plg_Init rk P (initialized r) (Suc (rk ?id)) None (initialized r) []"
      by (rule adv_nil)
    ultimately show ?thesis using Suc.prems(1) True by blast
  next
    case False
    have deps: "\<forall>d \<in> set (plg_Dependencies p). P d \<noteq> None \<and> rk d < rk ?id"
      using rnk Suc.prems(2) unfolding ranked_def by blast
    have lims: "\<forall>d \<in> set (plg_Dependencies p). P d \<noteq> None \<longrightarrow> rk d < rk ?id \<and> rk d < n"
      using deps Suc.prems(3) by auto
    have "\<exists>res r' t. initializeDeps n r (plg_Dependencies p) = Some (res, r', t) \<and> plugins r' = P \<and>
            adv plg_Init rk P (initialized r) (rk ?id) res (initialized r') t \<and>
            (res = None \<longrightarrow> (\<forall>d \<in> set (plg_Dependencies p). P d \<noteq> None \<longrightarrow> initialized r' d))"
      by (rule initializeDeps_adv [of P rk n r "plg_Dependencies p" "rk ?id", OF Suc.IH rnk Suc.prems(1) lims])
    then obtain res1 r1 t1 where s1: "initializeDeps n r (plg_Dependencies p) = Some (res1, r1, t1)"
      "plugins r1 = P" "adv plg_Init rk P (initialized r) (rk ?id) res1 (initialized r1) t1"
      "res1 = None \<longrightarrow> (\<forall>d \<in> set (plg_Dependencies p). P d \<noteq> None \<longrightarrow> initialized r1 d)"
      by (elim exE conjE)
    show ?thesis
    proof (cases res1)
      case (Some e)
      have a: "adv plg_Init rk P (initialized r) (Suc (rk ?id)) res1 (initialized r1) t1"
        using adv_mono [OF s1(3)] by simp
      have "initializePlugin (Suc n) r p = Some (res1, r1, t1)"
        using initializePlugin_deps_failed [OF False] s1(1) Some by simp
      then show ?thesis using a s1(2) Some by blast
    next
      case None
      have dsub: "set (plg_Dependencies p) \<subseteq> {x. initialized r1 x}"
        using s1(4) None deps by auto
      have a0: "adv plg_Init rk P (initialized r) (rk ?id) None (initialized r1) t1"
        using s1(3) None by simp
      have e0: "initializeDeps n r (plg_Dependencies p) = Some (None, r1, t1)"
        using s1(1) None by simp
      note unf = initializePlugin_deps_ok [OF False e0]
      show ?thesis
      proof (cases "plg_Init p")
        case None
        let ?r2 = "r1\<lparr>initialized := (initialized r1)(?id := True)\<rparr>"
        have a: "adv plg_Init rk P (initialized r) (Suc (rk ?id)) None (initialized ?r2) (t1 @ [?id])"
          by (rule adv_snoc [OF a0 False Suc.prems(2) dsub]) (simp add: None)
        have e: "initializePlugin (Suc n) r p = Some (None, ?r2, t1 @ [?id])"
          using unf None by simp
        have "plugins ?r2 = P" "initialized ?r2 ?id" using s1(2) by simp_all
        then show ?thesis using a e by blast
      next
        case (Some err)
        have a: "adv plg_Init rk P (initialized r) (Suc (rk ?id)) (Some (ErrInitialize ?id err)) (initialized r1) (t1 @ [?id])"
          by (rule adv_snoc [OF a0 False Suc.prems(2) dsub]) simp
        have e: "initializePlugin (Suc n) r p = Some (Some (ErrInitialize ?id err), r1, t1 @ [?id])"
          using unf Some by simp
        show ?thesis using a e s1(2) by blast
      qed
    qed
  qed
qed

lemma Initialize_adv:
  assumes rnk: "ranked rk P" and lim: "\<forall>k \<in> dom P. rk k < n"
  shows "plugins r = P \<Longrightarrow>
         \<exists>res r' t. Initialize n order r = Some (res, r', t) \<and> plugins r' = P \<and>
            adv plg_Init rk P (initialized r) n res (initialized r') t \<and>
            (res = None \<longrightarrow> (\<forall>k \<in> set order. P k \<noteq> None \<longrightarrow> initialized r' k))"
proof (induction order arbitrary: r)
  case Nil
  then show ?case by (simp add: adv_nil)
next
  case (Cons k ks)
  show ?case
  proof (cases "P k")
    case None
    then show ?thesis using Cons.IH [OF Cons.prems] Cons.prems by simp
  next
    case (Some p)
    then have id: "plg_ID p = k" using rnk unfolding ranked_def by blast
    have kn: "rk k < n" using lim Some by auto
    have "\<exists>res r' t. initializePlugin n r p = Some (res, r', t) \<and> plugins r' = P \<and>
            adv plg_Init rk P (initialized r) (Suc (rk k)) res (initialized r') t \<and>
            (res = None \<longrightarrow> initialized r' k)"
      using initializePlugin_adv [OF rnk Cons.prems, of p n] Some id kn by simp
    then obtain res1 r1 t1 where s1: "initializePlugin n r p = Some (res1, r1, t1)" "plugins r1 = P"
      "adv plg_Init rk P (initialized r) (Suc (rk k)) res1 (initialized r1) t1"
      "res1 = None \<longrightarrow> initialized r1 k"
      by (elim exE conjE)
    have a1: "adv plg_Init rk P (initialized r) n res1 (initialized r1) t1"
      using adv_mono [OF s1(3)] kn by simp
    show ?thesis
    proof (cases res1)
      case (Some e)
      then show ?thesis using s1 a1 Cons.prems \<open>P k = Some p\<close> by simp
    next
      case None
      obtain res2 r2 t2 where s2: "Initialize n ks r1 = Some (res2, r2, t2)" "plugins r2 = P"
        "adv plg_Init rk P (initialized r1) n res2 (initialized r2) t2"
        "res2 = None \<longrightarrow> (\<forall>k \<in> set ks. P k \<noteq> None \<longrightarrow> initialized r2 k)"
        using Cons.IH [OF s1(2)] by blast
      have a: "adv plg_Init rk P (initialized r) n res2 (initialized r2) (t1 @ t2)"
        using adv_append a1 s2(3) None by blast
      have "res2 = None \<longrightarrow> initialized r2 k"
        using s1(4) None s2(3) by (auto simp: adv_def)
      then show ?thesis using s1(1) s2 a None Cons.prems \<open>P k = Some p\<close> by simp
    qed
  qed
qed

lemma startDeps_adv:
  assumes A: "\<And>r p. plugins r = P \<Longrightarrow> P (plg_ID p) = Some p \<Longrightarrow> rk (plg_ID p) < n \<Longrightarrow>
                \<exists>res r' t. startPlugin n r p = Some (res, r', t) \<and> plugins r' = P \<and>
                   adv plg_Start rk P (started r) (Suc (rk (plg_ID p))) res (started r') t \<and>
                   (res = None \<longrightarrow> started r' (plg_ID p))"
      and rnk: "ranked rk P"
  shows "plugins r = P \<Longrightarrow> \<forall>d \<in> set ds. P d \<noteq> None \<longrightarrow> rk d < bnd \<and> rk d < n \<Longrightarrow>
         \<exists>res r' t. startDeps n r ds = Some (res, r', t) \<and> plugins r' = P \<and>
            adv plg_Start rk P (started r) bnd res (started r') t \<and>
            (res = None \<longrightarrow> (\<forall>d \<in> set ds. P d \<noteq> None \<longrightarrow> started r' d))"
proof (induction ds arbitrary: r)
  case Nil
  then show ?case by (simp add: adv_nil)
next
  case (Cons d ds)
  have rest: "\<forall>d \<in> set ds. P d \<noteq> None \<longrightarrow> rk d < bnd \<and> rk d < n" using Cons.prems(2) by simp
  show ?case
  proof (cases "P d")
    case None
    then show ?thesis using Cons.IH [OF Cons.prems(1) rest] Cons.prems(1) by simp
  next
    case (Some dep)
    then have id: "plg_ID dep = d" using rnk unfolding ranked_def by blast
    have dr: "Suc (rk d) \<le> bnd" "rk d < n" using Cons.prems(2) Some by simp_all
    obtain res1 r1 t1 where s1: "startPlugin n r dep = Some (res1, r1, t1)" "plugins r1 = P"
      "adv plg_Start rk P (started r) (Suc (rk d)) res1 (started r1) t1"
      "res1 = None \<longrightarrow> started r1 d"
      using A [OF Cons.prems(1), of dep] Some id dr by auto
    have a1: "adv plg_Start rk P (started r) bnd res1 (started r1) t1"
      using adv_mono [OF s1(3) dr(1)] .
    show ?thesis
    proof (cases res1)
      case (Some e)
      then show ?thesis using s1 a1 Cons.prems(1) \<open>P d = Some dep\<close> by simp
    next
      case None
      obtain res2 r2 t2 where s2: "startDeps n r1 ds = Some (res2, r2, t2)" "plugins r2 = P"
        "adv plg_Start rk P (started r1) bnd res2 (started r2) t2"
        "res2 = None \<longrightarrow> (\<forall>d \<in> set ds. P d \<noteq> None \<longrightarrow> started r2 d)"
        using Cons.IH [OF s1(2) rest] by blast
      have a: "adv plg_Start rk P (started r) bnd res2 (started r2) (t1 @ t2)"
        using adv_append a1 s2(3) None by blast
      have "res2 = None \<longrightarrow> started r2 d"
        using s1(4) None s2(3) by (auto simp: adv_def)
      then show ?thesis using s1(1) s2 a None Cons.prems(1) \<open>P d = Some dep\<close> by simp
    qed
  qed
qed

lemma startPlugin_done:
  "started r (plg_ID p) \<Longrightarrow> startPlugin (Suc n) r p = Some (None, r, [])"
  by simp

lemma startPlugin_deps_failed:
  "\<not> started r (plg_ID p) \<Longrightarrow> startDeps n r (plg_Dependencies p) = Some (Some e, r1, t1) \<Longrightarrow>
   startPlugin (Suc n) r p = Some (Some e, r1, t1)"
  by simp

lemma startPlugin_deps_ok:
  "\<not> started r (plg_ID p) \<Longrightarrow> startDeps n r (plg_Dependencies p) = Some (None, r1, t1) \<Longrightarrow>
   startPlugin (Suc n) r p =
     (case plg_Start p of
        Some err \<Rightarrow> Some (Some (ErrStart (plg_ID p) err), r1, t1 @ [plg_ID p])
      | None \<Rightarrow> Some (None, r1\<lparr>started := (started r1)(plg_ID p := True)\<rparr>, t1 @ [plg_ID p]))"
  by (simp add: Let_def)

lemma startPlugin_adv:
  assumes rnk: "ranked rk P"
  shows "plugins r = P \<Longrightarrow> P (plg_ID p) = Some p \<Longrightarrow> rk (plg_ID p) < n \<Longrightarrow>
         \<exists>res r' t. startPlugin n r p = Some (res, r', t) \<and> plugins r' = P \<and>
            adv plg_Start rk P (started r) (Suc (rk (plg_ID p))) res (started r') t \<and>
            (res = None \<longrightarrow> started r' (plg_ID p))"
proof (induction n arbitrary: r p)
  case 0
  then show ?case by simp
next
  case (Suc n)
  let ?id = "plg_ID p"
  show ?case
  proof (cases "started r ?id")
    case True
    have "startPlugin (Suc n) r p = Some (None, r, [])"
      using True by (rule startPlugin_done)
    moreover have "adv plg_Start rk P (started r) (Suc (rk ?id)) None (started r) []"
      by (rule adv_nil)
    ultimately show ?thesis using Suc.prems(1) True by blast
  next
    case False
    have deps: "\<forall>d \<in> set (plg_Dependencies p). P d \<noteq> None \<and> rk d < rk ?id"
      using rnk Suc.prems(2) unfolding ranked_def by blast
    have lims: "\<forall>d \<in> set (plg_Dependencies p). P d \<noteq> None \<longrightarrow> rk d < rk ?id \<and> rk d < n"
      using deps Suc.prems(3) by auto
    have "\<exists>res r' t. startDeps n r (plg_Dependencies p) = Some (res, r', t) \<and> plugins r' = P \<and>
            adv plg_Start rk P (started r) (rk ?id) res (started r') t \<and>
            (res = None \<longrightarrow> (\<forall>d \<in> set (plg_Dependencies p). P d \<noteq> None \<longrightarrow> started r' d))"
      by (rule startDeps_adv [of P rk n r "plg_Dependencies p" "rk ?id", OF Suc.IH rnk Suc.prems(1) lims])
    then obtain res1 r1 t1 where s1: "startDeps n r (plg_Dependencies p) = Some (res1, r1, t1)"
      "plugins r1 = P" "adv plg_Start rk P (started r) (rk ?id) res1 (started r1) t1"
      "res1 = None \<longrightarrow> (\<forall>d \<in> set (plg_Dependencies p). P d \<noteq> None \<longrightarrow> started r1 d)"
      by (elim exE conjE)
    show ?thesis
    proof (cases res1)
      case (Some e)
      have a: "adv plg_Start rk P (started r) (Suc (rk ?id)) res1 (started r1) t1"
        using adv_mono [OF s1(3)] by simp
      have "startPlugin (Suc n) r p = Some (res1, r1, t1)"
        using startPlugin_deps_failed [OF False] s1(1) Some by simp
      then show ?thesis using a s1(2) Some by blast
    next
      case None
      have dsub: "set (plg_Dependencies p) \<subseteq> {x. started r1 x}"
        using s1(4) None deps by auto
      have a0: "adv plg_Start rk P (started r) (rk ?id) None (started r1) t1"
        using s1(3) None by simp
      have e0: "startDeps n r (plg_Dependencies p) = Some (None, r1, t1)"
        using s1(1) None by simp
      note unf = startPlugin_deps_ok [OF False e0]
      show ?thesis
      proof (cases "plg_Start p")
        case None
        let ?r2 = "r1\<lparr>started := (started r1)(?id := True)\<rparr>"
        have a: "adv plg_Start rk P (started r) (Suc (rk ?id)) None (started ?r2) (t1 @ [?id])"
          by (rule adv_snoc [OF a0 False Suc.prems(2) dsub]) (simp add: None)
        have e: "startPlugin (Suc n) r p = Some (None, ?r2, t1 @ [?id])"
          using unf None by simp
        have "plugins ?r2 = P" "started ?r2 ?id" using s1(2) by simp_all
        then show ?thesis using a e by blast
      next
        case (Some err)
        have a: "adv plg_Start rk P (started r) (Suc (rk ?id)) (Some (ErrStart ?id err)) (started r1) (t1 @ [?id])"
          by (rule adv_snoc [OF a0 False Suc.prems(2) dsub]) simp
        have e: "startPlugin (Suc n) r p = Some (Some (ErrStart ?id err), r1, t1 @ [?id])"
          using unf Some by simp
        show ?thesis using a e s1(2) by blast
      qed
    qed
  qed
qed

lemma Start_adv:
  assumes rnk: "ranked rk P" and lim: "\<forall>k \<in> dom P. rk k < n"
  shows "plugins r = P \<Longrightarrow>
         \<exists>res r' t. Start n order r = Some (res, r', t) \<and> plugins r' = P \<and>
            adv plg_Start rk P (started r) n res (started r') t \<and>
            (res = None \<longrightarrow> (\<forall>k \<in> set order. P k \<noteq> None \<longrightarrow> started r' k))"
proof (induction order arbitrary: r)
  case Nil
  then show ?case by (simp add: adv_nil)
next
  case (Cons k ks)
  show ?case
  proof (cases "P k")
    case None
    then show ?thesis using Cons.IH [OF Cons.prems] Cons.prems by simp
  next
    case (Some p)
    then have id: "plg_ID p = k" using rnk unfolding ranked_def by blast
    have kn: "rk k < n" using lim Some by auto
    have "\<exists>res r' t. startPlugin n r p = Some (res, r', t) \<and> plugins r' = P \<and>
            adv plg_Start rk P (started r) (Suc (rk k)) res (started r') t \<and>
            (res = None \<longrightarrow> started r' k)"
      using startPlugin_adv [OF rnk Cons.prems, of p n] Some id kn by simp
    then obtain res1 r1 t1 where s1: "startPlugin n r p = Some (res1, r1, t1)" "plugins r1 = P"
      "adv plg_Start rk P (started r) (Suc (rk k)) res1 (started r1) t1"
      "res1 = None \<longrightarrow> started r1 k"
      by (elim exE conjE)
    have a1: "adv plg_Start rk P (started r) n res1 (started r1) t1"
      using adv_mono [OF s1(3)] kn by simp
    show ?thesis
    proof (cases res1)
      case (Some e)
      then show ?thesis using s1 a1 Cons.prems \<open>P k = Some p\<close> by simp
    next
      case None
      obtain res2 r2 t2 where s2: "Start n ks r1 = Some (res2, r2, t2)" "plugins r2 = P"
        "adv plg_Start rk P (started r1) n res2 (started r2) t2"
        "res2 = None \<longrightarrow> (\<forall>k \<in> set ks. P k \<noteq> None \<longrightarrow> started r2 k)"
        using Cons.IH [OF s1(2)] by blast
      have a: "adv plg_Start rk P (started r) n res2 (started r2) (t1 @ t2)"
        using adv_append a1 s2(3) None by blast
      have "res2 = None \<longrightarrow> started r2 k"
        using s1(4) None s2(3) by (auto simp: adv_def)
      then show ?thesis using s1(1) s2 a None Cons.prems \<open>P k = Some p\<close> by simp
    qed
  qed
qed

lemma precedes_later:
  "dep_ordered P seen t \<Longrightarrow> x \<in> set t \<Longrightarrow> P x = Some p \<Longrightarrow> d \<in> set (plg_Dependencies p) \<Longrightarrow>
   d \<notin> seen \<Longrightarrow> precedes d x t"
proof (induction t arbitrary: seen)
  case Nil
  then show ?case by simp
next
  case (Cons y ys)
  have o: "dep_ordered P (insert y seen) ys" using Cons.prems(1) by simp
  have xy: "x \<noteq> y"
  proof
    assume "x = y"
    then have "set (plg_Dependencies p) \<subseteq> seen" using Cons.prems(1,3) by auto
    then show False using Cons.prems(4,5) by auto
  qed
  then have xs: "x \<in> set ys" using Cons.prems(2) by simp
  show ?case
  proof (cases "d = y")
    case True
    then show ?thesis using xs by (simp add: precedes_def)
  next
    case False
    then have "d \<notin> insert y seen" using Cons.prems(5) by simp
    then have "precedes d x ys" using Cons.IH [OF o xs Cons.prems(3,4)] by simp
    then show ?thesis using False by (simp add: precedes_def)
  qed
qed

lemma precedes_butlast: "precedes a b t \<Longrightarrow> a \<in> set (butlast t)"
proof (induction t)
  case Nil
  then show ?case by (simp add: precedes_def)
next
  case (Cons y ys)
  show ?case
  proof (cases "y = a")
    case True
    then have "b \<in> set ys" using Cons.prems by (simp add: precedes_def)
    then have "ys \<noteq> []" by auto
    then show ?thesis using True by simp
  next
    case False
    then have p: "precedes a b ys" using Cons.prems by (simp add: precedes_def)
    then have "a \<in> set (butlast ys)" by (rule Cons.IH)
    moreover have "ys \<noteq> []" using p by (auto simp: precedes_def)
    ultimately show ?thesis by simp
  qed
qed

lemma dep_ordered_registered: "dep_ordered P seen t \<Longrightarrow> x \<in> set t \<Longrightarrow> \<exists>p. P x = Some p"
  by (induction t arbitrary: seen) auto

lemma adv_in_dependency_order:
  assumes "adv meth rk P (\<lambda>x. False) bnd res fl2 t"
  shows "in_dependency_order meth P t"
proof -
  have o: "dep_ordered P {} t" and ok: "all_ok meth P (butlast t)"
    using assms by (simp_all add: adv_def)
  have d: "distinct t" using dep_ordered_distinct [OF o] by simp
  have "\<And>x p dep. x \<in> set t \<Longrightarrow> P x = Some p \<Longrightarrow> dep \<in> set (plg_Dependencies p) \<Longrightarrow>
          precedes dep x t \<and> (\<exists>q. P dep = Some q \<and> meth q = None)"
  proof -
    fix x p dep
    assume x: "x \<in> set t" "P x = Some p" "dep \<in> set (plg_Dependencies p)"
    have pr: "precedes dep x t" using precedes_later [OF o x] by simp
    then have "dep \<in> set (butlast t)" by (rule precedes_butlast)
    then have "\<exists>q. P dep = Some q \<and> meth q = None" using ok by (simp add: all_ok_def)
    then show "precedes dep x t \<and> (\<exists>q. P dep = Some q \<and> meth q = None)" using pr by simp
  qed
  then have "\<forall>x \<in> set t. case P x of None \<Rightarrow> False
               | Some p \<Rightarrow> \<forall>dep \<in> set (plg_Dependencies p).
                   precedes dep x t \<and> (case P dep of Some q \<Rightarrow> meth q = None | None \<Rightarrow> False)"
    using dep_ordered_registered [OF o] by (fastforce split: option.splits)
  then show ?thesis using d
    by (auto simp: in_dependency_order_def list_all_iff split: option.splits)
qed

lemma Register_ranked:
  assumes "ranked rk (plugins r)" and "\<forall>k \<in> dom (plugins r). rk k < N"
  shows "\<exists>rk'. ranked rk' (plugins (snd (Register p r))) \<and>
               (\<forall>k \<in> dom (plugins (snd (Register p r))). rk' k < Suc N)"
proof (cases "fst (Register p r) = None")
  case False
  then have "snd (Register p r) = r" by (simp add: Register_failed)
  then show ?thesis using assms by (intro exI [of _ rk]) (auto simp: less_Suc_eq)
next
  case True
  let ?id = "plg_ID p"
  let ?rk = "rk(?id := N)"
  have new: "plugins r ?id = None" and deps: "\<forall>dep \<in> set (plg_Dependencies p). plugins r dep \<noteq> None"
    using True by (simp_all add: Register_ok_iff)
  have pl: "plugins (snd (Register p r)) = (plugins r)(?id \<mapsto> p)"
    using True by (simp add: Register_ok installPlugin_fields)
  have old: "\<And>k. plugins r k \<noteq> None \<Longrightarrow> k \<noteq> ?id \<and> rk k < N"
    using new assms(2) by auto
  have "ranked ?rk ((plugins r)(?id \<mapsto> p))"
    unfolding ranked_def
  proof (intro allI impI)
    fix k q
    assume kq: "((plugins r)(?id \<mapsto> p)) k = Some q"
    show "plg_ID q = k \<and> (\<forall>d \<in> set (plg_Dependencies q). ((plugins r)(?id \<mapsto> p)) d \<noteq> None \<and> ?rk d < ?rk k)"
    proof (cases "k = ?id")
      case True
      then have "q = p" using kq by simp
      then show ?thesis using True deps old by auto
    next
      case False
      then have q: "plugins r k = Some q" using kq by simp
      then have "plg_ID q = k" "\<forall>d \<in> set (plg_Dependencies q). plugins r d \<noteq> None \<and> rk d < rk k"
        using assms(1) unfolding ranked_def by blast+
      then show ?thesis using False old by auto
    qed
  qed
  moreover have "\<forall>k \<in> dom ((plugins r)(?id \<mapsto> p)). ?rk k < Suc N"
    using old by (auto simp: less_Suc_eq)
  ultimately show ?thesis using pl by (intro exI [of _ ?rk]) simp
qed

lemma registerAll_ranked:
  "ranked rk (plugins r) \<Longrightarrow> \<forall>k \<in> dom (plugins r). rk k < N \<Longrightarrow>
   \<exists>rk'. ranked rk' (plugins (registerAll ps r)) \<and>
         (\<forall>k \<in> dom (plugins (registerAll ps r)). rk' k < N + length ps)"
proof (induction ps arbitrary: r rk N)
  case Nil
  then show ?case by auto
next
  case (Cons p ps)
  obtain rk1 where "ranked rk1 (plugins (snd (Register p r)))"
    "\<forall>k \<in> dom (plugins (snd (Register p r))). rk1 k < Suc N"
    using Register_ranked [OF Cons.prems] by blast
  then show ?case using Cons.IH [of rk1 "snd (Register p r)" "Suc N"] by simp
qed

lemma reachable_ranked:
  "\<exists>rk. ranked rk (plugins (registerAll ps (NewRegistry mux st))) \<and>
        (\<forall>k \<in> dom (plugins (registerAll ps (NewRegistry mux st))). rk k < length ps)"
  using registerAll_ranked [of "\<lambda>k. 0" "NewRegistry mux st" 0 ps]
  by (simp add: ranked_def NewRegistry_def)

lemma Register_flags [simp]:
  "initialized (snd (Register p r)) = initialized r"
  "started (snd (Register p r)) = started r"
  by (cases "fst (Register p r) = None"; simp add: Register_ok Register_failed installPlugin_fields)+

lemma registerAll_flags [simp]:
  "initialized (registerAll ps r) = initialized r"
  "started (registerAll ps r) = started r"
  by (induction ps arbitrary: r; simp)+

lemma Initialize_noop:
  assumes "ranked rk (plugins r)"
  shows "\<forall>k \<in> set order. plugins r k \<noteq> None \<longrightarrow> initialized r k \<Longrightarrow>
         Initialize (Suc n) order r = Some (None, r, [])"
proof (induction order)
  case Nil
  then show ?case by simp
next
  case (Cons k ks)
  have rest: "Initialize (Suc n) ks r = Some (None, r, [])" using Cons by simp
  show ?case
  proof (cases "plugins r k")
    case None
    then show ?thesis using rest by simp
  next
    case (Some p)
    then have "plg_ID p = k" using assms unfolding ranked_def by blast
    then have "initializePlugin (Suc n) r p = Some (None, r, [])"
      using Cons.prems Some by (simp add: initializePlugin_done del: initializePlugin.simps)
    then show ?thesis using rest Some by (simp del: initializePlugin.simps)
  qed
qed

lemma Start_noop:
  assumes "ranked rk (plugins r)"
  shows "\<forall>k \<in> set order. plugins r k \<noteq> None \<longrightarrow> started r k \<Longrightarrow>
         Start (Suc n) order r = Some (None, r, [])"
proof (induction order)
  case Nil
  then show ?case by simp
next
  case (Cons k ks)
  have rest: "Start (Suc n) ks r = Some (None, r, [])" using Cons by simp
  show ?case
  proof (cases "plugins r k")
    case None
    then show ?thesis using rest by simp
  next
    case (Some p)
    then have "plg_ID p = k" using assms unfolding ranked_def by blast
    then have "startPlugin (Suc n) r p = Some (None, r, [])"
      using Cons.prems Some by (simp add: startPlugin_done del: startPlugin.simps)
    then show ?thesis using rest Some by (simp del: startPlugin.simps)
  qed
qed

lemma Initialize_bootstrap:
  assumes rnk: "ranked rk (plugins r)" and lim: "\<forall>k \<in> dom (plugins r). rk k < n"
      and fresh: "\<forall>k. \<not> initialized r k" and pos: "0 < n"
  shows "\<exists>res r' t. Initialize n order r = Some (res, r', t) \<and>
            in_dependency_order plg_Init (plugins r) t \<and>
            (res = None \<longrightarrow>
               (\<forall>k \<in> set order. plugins r k \<noteq> None \<longrightarrow> k \<in> set t \<and> initialized r' k) \<and>
               Initialize n order r' = Some (None, r', []))"
proof -
  have f: "initialized r = (\<lambda>x. False)" using fresh by auto
  obtain res r' t where s: "Initialize n order r = Some (res, r', t)" "plugins r' = plugins r"
    "adv plg_Init rk (plugins r) (initialized r) n res (initialized r') t"
    "res = None \<longrightarrow> (\<forall>k \<in> set order. plugins r k \<noteq> None \<longrightarrow> initialized r' k)"
    using Initialize_adv [OF rnk lim refl, of order] by (elim exE conjE)
  have o: "in_dependency_order plg_Init (plugins r) t"
    using adv_in_dependency_order [of plg_Init rk "plugins r" n res "initialized r'" t] s(3) f by simp
  have "res = None \<longrightarrow>
               (\<forall>k \<in> set order. plugins r k \<noteq> None \<longrightarrow> k \<in> set t \<and> initialized r' k) \<and>
               Initialize n order r' = Some (None, r', [])"
  proof
    assume ok: "res = None"
    then have i: "initialized r' = (\<lambda>x. x \<in> set t)" using s(3) f by (simp add: adv_def)
    have a: "\<forall>k \<in> set order. plugins r' k \<noteq> None \<longrightarrow> initialized r' k" using s(2,4) ok by simp
    obtain m where "n = Suc m" using pos by (cases n) auto
    then have "Initialize n order r' = Some (None, r', [])"
      using Initialize_noop [of rk r' order m] rnk s(2) a by simp
    then show "(\<forall>k \<in> set order. plugins r k \<noteq> None \<longrightarrow> k \<in> set t \<and> initialized r' k) \<and>
               Initialize n order r' = Some (None, r', [])"
      using a i s(2) by simp
  qed
  then show ?thesis using s(1) o by blast
qed

lemma initializePlugin_bootstrap:
  assumes rnk: "ranked rk (plugins r)" and lim: "\<forall>k \<in> dom (plugins r). rk k < n"
      and fresh: "\<forall>k. \<not> initialized r k" and reg: "plugins r (plg_ID p) = Some p"
  shows "\<exists>res r' t. initializePlugin n r p = Some (res, r', t) \<and>
            in_dependency_order plg_Init (plugins r) t \<and>
            (res = None \<longrightarrow> plg_ID p \<in> set t \<and> initializePlugin n r' p = Some (None, r', []))"
proof -
  have f: "initialized r = (\<lambda>x. False)" using fresh by auto
  have kn: "rk (plg_ID p) < n" using lim reg by auto
  obtain res r' t where s: "initializePlugin n r p = Some (res, r', t)" "plugins r' = plugins r"
    "adv plg_Init rk (plugins r) (initialized r) (Suc (rk (plg_ID p))) res (initialized r') t"
    "res = None \<longrightarrow> initialized r' (plg_ID p)"
    using initializePlugin_adv [OF rnk refl reg kn] by (elim exE conjE)
  have o: "in_dependency_order plg_Init (plugins r) t"
    using adv_in_dependency_order [of plg_Init rk "plugins r" _ res "initialized r'" t] s(3) f by simp
  have "res = None \<longrightarrow> plg_ID p \<in> set t \<and> initializePlugin n r' p = Some (None, r', [])"
  proof
    assume ok: "res = None"
    then have i: "initialized r' = (\<lambda>x. x \<in> set t)" using s(3) f by (simp add: adv_def)
    obtain m where "n = Suc m" using kn by (cases n) auto
    then have "initializePlugin n r' p = Some (None, r', [])"
      using initializePlugin_done [of r' p m] s(4) ok by simp
    then show "plg_ID p \<in> set t \<and> initializePlugin n r' p = Some (None, r', [])"
      using s(4) ok i by simp
  qed
  then show ?thesis using s(1) o by blast
qed

lemma Start_bootstrap:
  assumes rnk: "ranked rk (plugins r)" and lim: "\<forall>k \<in> dom (plugins r). rk k < n"
      and fresh: "\<forall>k. \<not> started r k" and pos: "0 < n"
  shows "\<exists>res r' t. Start n order r = Some (res, r', t) \<and>
            in_dependency_order plg_Start (plugins r) t \<and>
            (res = None \<longrightarrow>
               (\<forall>k \<in> set order. plugins r k \<noteq> None \<longrightarrow> k \<in> set t \<and> started r' k) \<and>
               Start n order r' = Some (None, r', []))"
proof -
  have f: "started r = (\<lambda>x. False)" using fresh by auto
  obtain res r' t where s: "Start n order r = Some (res, r', t)" "plugins r' = plugins r"
    "adv plg_Start rk (plugins r) (started r) n res (started r') t"
    "res = None \<longrightarrow> (\<forall>k \<in> set order. plugins r k \<noteq> None \<longrightarrow> started r' k)"
    using Start_adv [OF rnk lim refl, of order] by (elim exE conjE)
  have o: "in_dependency_order plg_Start (plugins r) t"
    using adv_in_dependency_order [of plg_Start rk "plugins r" n res "started r'" t] s(3) f by simp
  have "res = None \<longrightarrow>
               (\<forall>k \<in> set order. plugins r k \<noteq> None \<longrightarrow> k \<in> set t \<and> started r' k) \<and>
               Start n order r' = Some (None, r', [])"
  proof
    assume ok: "res = None"
    then have i: "started r' = (\<lambda>x. x \<in> set t)" using s(3) f by (simp add: adv_def)
    have a: "\<forall>k \<in> set order. plugins r' k \<noteq> None \<longrightarrow> started r' k" using s(2,4) ok by simp
    obtain m where "n = Suc m" using pos by (cases n) auto
    then have "Start n order r' = Some (None, r', [])"
      using Start_noop [of rk r' order m] rnk s(2) a by simp
    then show "(\<forall>k \<in> set order. plugins r k \<noteq> None \<longrightarrow> k \<in> set t \<and> started r' k) \<and>
               Start n order r' = Some (None, r', [])"
      using a i s(2) by simp
  qed
  then show ?thesis using s(1) o by blast
qed

lemma startPlugin_bootstrap:
  assumes rnk: "ranked rk (plugins r)" and lim: "\<forall>k \<in> dom (plugins r). rk k < n"
      and fresh: "\<forall>k. \<not> started r k" and reg: "plugins r (plg_ID p) = Some p"
  shows "\<exists>res r' t. startPlugin n r p = Some (res, r', t) \<and>
            in_dependency_order plg_Start (plugins r) t \<and>
            (res = None \<longrightarrow> plg_ID p \<in> set t \<and> startPlugin n r' p = Some (None, r', []))"
proof -
  have f: "started r = (\<lambda>x. False)" using fresh by auto
  have kn: "rk (plg_ID p) < n" using lim reg by auto
  obtain res r' t where s: "startPlugin n r p = Some (res, r', t)" "plugins r' = plugins r"
    "adv plg_Start rk (plugins r) (started r) (Suc (rk (plg_ID p))) res (started r') t"
    "res = None \<longrightarrow> started r' (plg_ID p)"
    using startPlugin_adv [OF rnk refl reg kn] by (elim exE conjE)
  have o: "in_dependency_order plg_Start (plugins r) t"
    using adv_in_dependency_order [of plg_Start rk "plugins r" _ res "started r'" t] s(3) f by simp
  have "res = None \<longrightarrow> plg_ID p \<in> set t \<and> startPlugin n r' p = Some (None, r', [])"
  proof
    assume ok: "res = None"
    then have i: "started r' = (\<lambda>x. x \<in> set t)" using s(3) f by (simp add: adv_def)
    obtain m where "n = Suc m" using kn by (cases n) auto
    then have "startPlugin n r' p = Some (None, r', [])"
      using startPlugin_done [of r' p m] s(4) ok by simp
    then show "plg_ID p \<in> set t \<and> startPlugin n r' p = Some (None, r', [])"
      using s(4) ok i by simp
  qed
  then show ?thesis using s(1) o by blast
qed

text \<open>
  Claim C6: take a registry whose plugin table was built by \<open>Register\<close> calls (in
  any number, failed ones included) and that has not been initialized. For every order
  in which the loop of \<open>Initialize\<close> visits the table, and for a recursion depth
  larger than the number of calls, \<open>Initialize\<close> returns; no plugin's
  \<open>Init\<close> is called twice; and when the \<open>Init\<close> of a plugin P is called,
  the \<open>Init\<close> of each of its dependencies Q was called before and returned no
  error. The same holds when \<open>initializePlugin\<close> is called on a registered plugin
  directly. After a success every plugin of the loop was called and is marked, and a
  second traversal calls nothing and leaves the registry as it is. All of this holds
  for \<open>Start\<close> and \<open>startPlugin\<close> on a registry that has not been started.
\<close>

theorem lifecycle_dependency_order:
  assumes "plugins r = plugins (registerAll ps (NewRegistry mux st))" and "length ps < n"
  shows "((\<forall>k. \<not> initialized r k) \<longrightarrow>
            (\<exists>res r' t. Initialize n order r = Some (res, r', t) \<and>
               in_dependency_order plg_Init (plugins r) t \<and>
               (res = None \<longrightarrow>
                  (\<forall>k \<in> set order. plugins r k \<noteq> None \<longrightarrow> k \<in> set t \<and> initialized r' k) \<and>
                  Initialize n order r' = Some (None, r', []))) \<and>
            (plugins r (plg_ID p) = Some p \<longrightarrow>
               (\<exists>res r' t. initializePlugin n r p = Some (res, r', t) \<and>
                  in_dependency_order plg_Init (plugins r) t \<and>
                  (res = None \<longrightarrow>
                     plg_ID p \<in> set t \<and> initializePlugin n r' p = Some (None, r', []))))) \<and>
         ((\<forall>k. \<not> started r k) \<longrightarrow>
            (\<exists>res r' t. Start n order r = Some (res, r', t) \<and>
               in_dependency_order plg_Start (plugins r) t \<and>
               (res = None \<longrightarrow>
                  (\<forall>k \<in> set order. plugins r k \<noteq> None \<longrightarrow> k \<in> set t \<and> started r' k) \<and>
                  Start n order r' = Some (None, r', []))) \<and>
            (plugins r (plg_ID p) = Some p \<longrightarrow>
               (\<exists>res r' t. startPlugin n r p = Some (res, r', t) \<and>
                  in_dependency_order plg_Start (plugins r) t \<and>
                  (res = None \<longrightarrow>
                     plg_ID p \<in> set t \<and> startPlugin n r' p = Some (None, r', [])))))"
proof -
  obtain rk where rk: "ranked rk (plugins r)" "\<forall>k \<in> dom (plugins r). rk k < length ps"
    using reachable_ranked [of ps mux st] assms(1) by auto
  have lim: "\<forall>k \<in> dom (plugins r). rk k < n"
  proof
    fix k assume "k \<in> dom (plugins r)"
    then have "rk k < length ps" using rk(2) by blast
    then show "rk k < n" using assms(2) by simp
  qed
  have pos: "0 < n" using assms(2) by simp
  show ?thesis
    using Initialize_bootstrap [OF rk(1) lim _ pos, of order]
      initializePlugin_bootstrap [OF rk(1) lim, of p]
      Start_bootstrap [OF rk(1) lim _ pos, of order]
      startPlugin_bootstrap [OF rk(1) lim, of p]
    by blast
qed

lemma ab_plugins:
  "plugins abRegistry = [''A'' \<mapsto> testPlugin ''A'' [], ''B'' \<mapsto> testPlugin ''B'' [''A'']]"
  by (simp add: abRegistry_def Register_ok Register_ok_iff installPlugin_fields memRegistry_def
      NewRegistry_def testPlugin_def)

lemma ab_fresh: "initialized abRegistry = (\<lambda>k. False)" "started abRegistry = (\<lambda>k. False)"
  by (simp_all add: abRegistry_def memRegistry_def NewRegistry_def)

lemma ab_Initialize:
  "\<exists>r'. Initialize (Suc (Suc (Suc 0))) [''B'', ''A''] abRegistry = Some (None, r', [''A'', ''B''])"
  by (simp add: ab_plugins ab_fresh testPlugin_def Let_def)

lemma ab_Start:
  "\<exists>r'. Start (Suc (Suc (Suc 0))) [''B'', ''A''] abRegistry = Some (None, r', [''A'', ''B''])"
  by (simp add: ab_plugins ab_fresh testPlugin_def Let_def)

theorem lifecycle_dependency_order_witness:
  "(\<exists>r'. Initialize (Suc (Suc (Suc 0))) [''B'', ''A''] abRegistry = Some (None, r', [''A'', ''B''])) \<and>
   in_dependency_order plg_Init (plugins abRegistry) [''A'', ''B''] \<and>
   (\<exists>r'. Start (Suc (Suc (Suc 0))) [''B'', ''A''] abRegistry = Some (None, r', [''A'', ''B''])) \<and>
   in_dependency_order plg_Start (plugins abRegistry) [''A'', ''B''] \<and>
   precedes ''A'' ''B'' [''A'', ''B'']"
proof -
  have P: "plugins abRegistry
             = plugins (registerAll [testPlugin ''A'' [], testPlugin ''B'' [''A'']]
                 (NewRegistry None (MemoryConfigStorage Map.empty)))"
    by (simp add: abRegistry_def memRegistry_def)
  have n: "length [testPlugin ''A'' [], testPlugin ''B'' [''A'']] < Suc (Suc (Suc 0))" by simp
  have fr: "\<forall>k. \<not> initialized abRegistry k" "\<forall>k. \<not> started abRegistry k"
    by (simp_all add: ab_fresh)
  note th = lifecycle_dependency_order [OF P n, of "[''B'', ''A'']" "testPlugin ''B'' [''A'']"]
  have i: "in_dependency_order plg_Init (plugins abRegistry) [''A'', ''B'']"
    using th fr(1) ab_Initialize by auto
  have s: "in_dependency_order plg_Start (plugins abRegistry) [''A'', ''B'']"
    using th fr(2) ab_Start by auto
  have "precedes ''A'' ''B'' [''A'', ''B'']" by (simp add: precedes_def)
  then show ?thesis using i s ab_Initialize ab_Start by simp
qed

subsection \<open>Stop\<close>

lemma stopLoop_plugins: "stopLoop order r = (errs, r', t) \<Longrightarrow> plugins r' = plugins r"
proof (induction order arbitrary: r errs r' t)
  case Nil
  then show ?case by simp
next
  case (Cons k ks)
  show ?case
  proof (cases "plugins r k")
    case None
    then show ?thesis using Cons by simp
  next
    case (Some p)
    show ?thesis
    proof (cases "started r (plg_ID p)")
      case False
      then show ?thesis using Cons Some by simp
    next
      case True
      let ?r1 = "r\<lparr>started := (started r)(plg_ID p := False)\<rparr>"
      obtain e2 r2 t2 where s: "stopLoop ks ?r1 = (e2, r2, t2)" by (cases "stopLoop ks ?r1") auto
      have "r' = r2" using Cons.prems Some True s by (simp add: Let_def)
      then show ?thesis using Cons.IH [OF s] by simp
    qed
  qed
qed

lemma stopLoop_result:
  assumes "\<forall>k p. plugins r k = Some p \<longrightarrow> plg_ID p = k"
      and "set order \<subseteq> dom (plugins r)" and "distinct order"
      and "stopLoop order r = (errs, r', t)"
  shows "t = filter (started r) order \<and>
         started r' = (\<lambda>k. started r k \<and> k \<notin> set order) \<and>
         errs = stopErrors r t"
  using assms
proof (induction order arbitrary: r errs r' t)
  case Nil
  then show ?case by (simp add: stopErrors_def)
next
  case (Cons k ks)
  from Cons.prems(2) obtain p where p: "plugins r k = Some p" by auto
  then have id: "plg_ID p = k" using Cons.prems(1) by simp
  show ?case
  proof (cases "started r k")
    case False
    then have s: "stopLoop ks r = (errs, r', t)" using Cons.prems(4) p id by simp
    have "t = filter (started r) ks \<and> started r' = (\<lambda>k. started r k \<and> k \<notin> set ks) \<and>
         errs = stopErrors r t"
      using Cons.IH [OF Cons.prems(1) _ _ s] Cons.prems(2,3) by simp
    then show ?thesis using False by auto
  next
    case True
    let ?r1 = "r\<lparr>started := (started r)(k := False)\<rparr>"
    obtain e2 r2 t2 where s: "stopLoop ks ?r1 = (e2, r2, t2)" by (cases "stopLoop ks ?r1") auto
    have res: "r' = r2" "t = k # t2"
      "errs = (case plg_Stop p of Some err \<Rightarrow> [ErrStop k err] | None \<Rightarrow> []) @ e2"
      using Cons.prems(4) p id True s by (auto simp: Let_def)
    have k1: "\<forall>k p. plugins ?r1 k = Some p \<longrightarrow> plg_ID p = k" using Cons.prems(1) by simp
    have k2: "set ks \<subseteq> dom (plugins ?r1)" using Cons.prems(2) by simp
    have k3: "distinct ks" using Cons.prems(3) by simp
    have ih: "t2 = filter (started ?r1) ks \<and> started r2 = (\<lambda>x. started ?r1 x \<and> x \<notin> set ks) \<and>
         e2 = stopErrors ?r1 t2"
      using Cons.IH [OF k1 k2 k3 s] .
    have nk: "k \<notin> set ks" using Cons.prems(3) by simp
    have f: "filter (started ?r1) ks = filter (started r) ks"
      using nk by (intro filter_cong) auto
    have "stopErrors ?r1 t2 = stopErrors r t2" by (simp add: stopErrors_def)
    then show ?thesis using res ih f True p
      by (auto simp: stopErrors_def fun_eq_iff)
  qed
qed

text \<open>
  Claim C8, amended: on a registry whose plugin table was built by \<open>Register\<close>
  calls, \<open>Stop\<close> calls \<open>Stop\<close> on every plugin that is started, in
  the order of the loop; the errors of all the calls that fail are collected into one
  aggregate error (no error when none fails), and the loop goes on after a failure; and
  every plugin that was started is marked not started, whether its \<open>Stop\<close>
  succeeded or failed, so \<open>IsEnabled\<close> is false for every registered plugin
  afterwards.
\<close>

theorem Stop_stops_every_started:
  assumes "plugins r = plugins (registerAll ps (NewRegistry mux st))"
      and "set order = dom (plugins r)" and "distinct order"
      and "Stop order r = (res, r', t)"
  shows "t = filter (started r) order \<and>
         (\<forall>k. IsEnabled k r' = (IsEnabled k r \<and> plugins r k = None)) \<and>
         res = (if stopErrors r t = [] then None else Some (ErrStoppingPlugins (stopErrors r t))) \<and>
         plugins r' = plugins r"
proof -
  obtain rk where "ranked rk (plugins r)"
    using reachable_ranked [of ps mux st] assms(1) by auto
  then have keyed: "\<forall>k p. plugins r k = Some p \<longrightarrow> plg_ID p = k"
    unfolding ranked_def by blast
  obtain errs where s: "stopLoop order r = (errs, r', t)"
    and res: "res = (if length errs > 0 then Some (ErrStoppingPlugins errs) else None)"
    using assms(4) by (cases "stopLoop order r") (auto simp: Stop_def)
  have sub: "set order \<subseteq> dom (plugins r)" using assms(2) by simp
  have "t = filter (started r) order \<and> started r' = (\<lambda>k. started r k \<and> k \<notin> set order) \<and>
         errs = stopErrors r t"
    using stopLoop_result [OF keyed sub assms(3) s] .
  moreover have "\<And>k. (k \<notin> set order) = (plugins r k = None)"
    using assms(2) by auto
  ultimately show ?thesis
    using res stopLoop_plugins [OF s] by (auto simp: IsEnabled_def)
qed

lemma pqRegistry_plugins:
  "plugins pqRegistry = [''p'' \<mapsto> stubbornPlugin, ''q'' \<mapsto> testPlugin ''q'' []]"
  by (simp add: pqRegistry_def Register_ok Register_ok_iff installPlugin_fields
      memRegistry_def NewRegistry_def stubbornPlugin_def testPlugin_def)

lemma pqRegistry_started: "started pqRegistry = (\<lambda>k. False)"
  by (simp add: pqRegistry_def Register_ok Register_ok_iff installPlugin_fields
      memRegistry_def NewRegistry_def stubbornPlugin_def testPlugin_def)

lemma runningRegistry_plugins:
  "plugins runningRegistry = [''p'' \<mapsto> stubbornPlugin, ''q'' \<mapsto> testPlugin ''q'' []]"
  by (simp add: runningRegistry_def pqRegistry_plugins)

text \<open>The registry in which both plugins run is what \<open>Start\<close> makes of the registered one.\<close>

lemma pqRegistry_start_p:
  "startPlugin (Suc (Suc 0)) pqRegistry stubbornPlugin
     = Some (None, pqRegistry\<lparr>started := (started pqRegistry)(''p'' := True)\<rparr>, [''p''])"
  by (simp add: pqRegistry_started stubbornPlugin_def testPlugin_def Let_def)

lemma pqRegistry_start_q:
  "startPlugin (Suc (Suc 0)) (pqRegistry\<lparr>started := (started pqRegistry)(''p'' := True)\<rparr>)
       (testPlugin ''q'' [])
     = Some (None, pqRegistry\<lparr>started := (started pqRegistry)(''p'' := True, ''q'' := True)\<rparr>,
             [''q''])"
  by (simp add: pqRegistry_started testPlugin_def Let_def)

lemma runningRegistry_reached:
  "Start (Suc (Suc 0)) [''p'', ''q''] pqRegistry = Some (None, runningRegistry, [''p'', ''q''])"
proof -
  have "Start (Suc (Suc 0)) [''p'', ''q''] pqRegistry
          = Some (None, pqRegistry\<lparr>started := (started pqRegistry)(''p'' := True, ''q'' := True)\<rparr>,
                  [''p'', ''q''])"
    by (simp add: pqRegistry_plugins pqRegistry_start_p pqRegistry_start_q del: startPlugin.simps)
  moreover have "pqRegistry\<lparr>started := (started pqRegistry)(''p'' := True, ''q'' := True)\<rparr>
                   = runningRegistry"
    by (auto simp: runningRegistry_def pqRegistry_started fun_eq_iff)
  ultimately show ?thesis by simp
qed

text \<open>
  Claim C8, as stated, fails: the plugins \<open>p\<close> and \<open>q\<close> are registered and
  started; the \<open>Stop\<close> of \<open>p\<close> returns an error, which \<open>Stop\<close> reports;
  yet \<open>IsEnabled\<close> is false for \<open>p\<close> afterwards.
\<close>

theorem Stop_failed_plugin_counterexample:
  "Start (Suc (Suc 0)) [''p'', ''q''] pqRegistry = Some (None, runningRegistry, [''p'', ''q'']) \<and>
   IsEnabled ''p'' runningRegistry \<and>
   plg_Stop stubbornPlugin = Some (ErrPlugin ''busy'') \<and>
   fst (Stop [''p'', ''q''] runningRegistry)
     = Some (ErrStoppingPlugins [ErrStop ''p'' (ErrPlugin ''busy'')]) \<and>
   \<not> IsEnabled ''p'' (fst (snd (Stop [''p'', ''q''] runningRegistry)))"
proof -
  have "IsEnabled ''p'' runningRegistry \<and>
        plg_Stop stubbornPlugin = Some (ErrPlugin ''busy'') \<and>
        fst (Stop [''p'', ''q''] runningRegistry)
          = Some (ErrStoppingPlugins [ErrStop ''p'' (ErrPlugin ''busy'')]) \<and>
        \<not> IsEnabled ''p'' (fst (snd (Stop [''p'', ''q''] runningRegistry)))"
    by (simp add: Stop_def IsEnabled_def runningRegistry_plugins Let_def)
       (simp add: runningRegistry_def stubbornPlugin_def testPlugin_def)
  then show ?thesis using runningRegistry_reached by simp
qed

theorem Stop_stops_every_started_witness:
  "Stop [''p'', ''q''] runningRegistry
     = (Some (ErrStoppingPlugins [ErrStop ''p'' (ErrPlugin ''busy'')]),
        snd (Stop [''p'', ''q''] runningRegistry)) \<and>
   snd (snd (Stop [''p'', ''q''] runningRegistry)) = [''p'', ''q''] \<and>
   \<not> IsEnabled ''p'' (fst (snd (Stop [''p'', ''q''] runningRegistry))) \<and>
   \<not> IsEnabled ''q'' (fst (snd (Stop [''p'', ''q''] runningRegistry)))"
proof -
  obtain res r' t where s: "Stop [''p'', ''q''] runningRegistry = (res, r', t)"
    by (cases "Stop [''p'', ''q''] runningRegistry") auto
  have k: "plugins runningRegistry
             = plugins (registerAll [stubbornPlugin, testPlugin ''q'' []]
                 (NewRegistry None (MemoryConfigStorage Map.empty)))"
    by (simp add: runningRegistry_def pqRegistry_def memRegistry_def)
  have d: "set [''p'', ''q''] = dom (plugins runningRegistry)"
    by (auto simp: runningRegistry_plugins)
  have "distinct [''p'', ''q'']" by simp
  from Stop_stops_every_started [OF k d this s]
  have "t = [''p'', ''q'']" "\<not> IsEnabled ''p'' r'" "\<not> IsEnabled ''q'' r'"
    "res = Some (ErrStoppingPlugins [ErrStop ''p'' (ErrPlugin ''busy'')])"
    by (simp_all add: runningRegistry_plugins stopErrors_def)
       (simp_all add: runningRegistry_def stubbornPlugin_def testPlugin_def)
  then show ?thesis using s by simp
qed

end
